theory Spec2Isabelle
  imports Main "HOL-Library.Sublist"
begin

section \<open>The node tree\<close>

text \<open>
  The working tree of \<^verbatim>\<open>normalizeLegacyMessage\<close> is the detached \<^verbatim>\<open>div\<close> whose
  \<^verbatim>\<open>innerHTML\<close> was set from the textarea. A node is an element or a text node (which
  stands for every node that is no element). An
  element carries its identity (\<open>nid\<close>, what JavaScript's \<^verbatim>\<open>===\<close> compares), its
  upper-case \<^verbatim>\<open>tagName\<close>, the value of \<^verbatim>\<open>dataset.ckeFiller\<close> (\<open>None\<close> when the
  attribute is absent) and its \<^verbatim>\<open>childNodes\<close> in sibling order. The tag and the
  dataset of an element are never written by the code, so a reference to an element
  held in a list (a static \<^verbatim>\<open>NodeList\<close>, the \<^verbatim>\<open>paragraphs\<close> array) is the element as
  it was read; everything about its position is read from the current tree by its
  identity.
\<close>

datatype node =
    Text string
  | Elem (nid: nat) (tagName: string) (ckeFiller: "string option") (childNodes: "node list")

fun idOf :: "node \<Rightarrow> nat option" where
  "idOf (Text s) = None"
| "idOf (Elem i tg f cs) = Some i"

fun kids :: "node \<Rightarrow> node list" where
  "kids (Text s) = []"
| "kids (Elem i tg f cs) = cs"

fun isElement :: "node \<Rightarrow> bool" where
  "isElement (Text s) = False"
| "isElement (Elem i tg f cs) = True"

text \<open>The elements of a subtree in document order (the root first).\<close>

fun subElems :: "node \<Rightarrow> node list" where
  "subElems (Text s) = []"
| "subElems (Elem i tg f cs) = Elem i tg f cs # concat (map subElems cs)"

definition ids :: "node \<Rightarrow> nat list" where
  "ids t = map nid (subElems t)"

text \<open>The proper descendants of an element in document order, and
  \<^verbatim>\<open>root.querySelectorAll(tag)\<close>: those with that tag, as a static list.\<close>

definition descendants :: "node \<Rightarrow> node list" where
  "descendants root = concat (map subElems (kids root))"

definition querySelectorAll :: "string \<Rightarrow> node \<Rightarrow> node list" where
  "querySelectorAll tg root = filter (\<lambda>n. tagName n = tg) (descendants root)"

text \<open>The chain of elements from the root down to the element \<open>x\<close> (both included);
  empty when \<open>x\<close> is not in the tree.\<close>

fun pathTo :: "node \<Rightarrow> nat \<Rightarrow> node list" where
  "pathTo (Text s) x = []"
| "pathTo (Elem i tg f cs) x =
     (if i = x then [Elem i tg f cs]
      else (case concat (map (\<lambda>c. pathTo c x) cs) of
              [] \<Rightarrow> []
            | p # ps \<Rightarrow> Elem i tg f cs # p # ps))"

text \<open>\<^verbatim>\<open>x.parentElement\<close>: \<open>None\<close> is JavaScript's \<^verbatim>\<open>null\<close> (the root of the detached
  tree, or an element that is no longer in it).\<close>

definition parentElement :: "node \<Rightarrow> nat \<Rightarrow> node option" where
  "parentElement t x = (case rev (pathTo t x) of self # parent # up \<Rightarrow> Some parent | _ \<Rightarrow> None)"

definition siblingsBefore :: "node list \<Rightarrow> nat \<Rightarrow> node list" where
  "siblingsBefore cs x = takeWhile (\<lambda>c. idOf c \<noteq> Some x) cs"

definition siblingsAfter :: "node list \<Rightarrow> nat \<Rightarrow> node list" where
  "siblingsAfter cs x = drop 1 (dropWhile (\<lambda>c. idOf c \<noteq> Some x) cs)"

definition previousSibling :: "node \<Rightarrow> nat \<Rightarrow> node option" where
  "previousSibling t x =
     (case parentElement t x of
        None \<Rightarrow> None
      | Some parent \<Rightarrow> (case rev (siblingsBefore (kids parent) x) of [] \<Rightarrow> None | c # _ \<Rightarrow> Some c))"

definition nextSibling :: "node \<Rightarrow> nat \<Rightarrow> node option" where
  "nextSibling t x =
     (case parentElement t x of
        None \<Rightarrow> None
      | Some parent \<Rightarrow> (case siblingsAfter (kids parent) x of [] \<Rightarrow> None | c # _ \<Rightarrow> Some c))"

definition nextElementSibling :: "node \<Rightarrow> nat \<Rightarrow> nat option" where
  "nextElementSibling t x =
     (case parentElement t x of
        None \<Rightarrow> None
      | Some parent \<Rightarrow>
          (case List.map_filter idOf (siblingsAfter (kids parent) x) of [] \<Rightarrow> None | i # _ \<Rightarrow> Some i))"

text \<open>\<^verbatim>\<open>x.closest(sel)\<close> for a selector that is a list of tags: the nearest inclusive
  ancestor with one of the tags.\<close>

definition closest :: "string list \<Rightarrow> node \<Rightarrow> nat \<Rightarrow> node option" where
  "closest tags t x = List.find (\<lambda>n. tagName n \<in> set tags) (rev (pathTo t x))"

text \<open>\<^verbatim>\<open>x.remove()\<close>: the subtree of \<open>x\<close> leaves the tree; nothing happens when \<open>x\<close> has no
  parent.\<close>

fun remove :: "nat \<Rightarrow> node \<Rightarrow> node" where
  "remove x (Text s) = Text s"
| "remove x (Elem i tg f cs) = Elem i tg f (map (remove x) (filter (\<lambda>c. idOf c \<noteq> Some x) cs))"

fun insertAfter :: "nat \<Rightarrow> node \<Rightarrow> node \<Rightarrow> node" where
  "insertAfter x n (Text s) = Text s"
| "insertAfter x n (Elem i tg f cs) =
     Elem i tg f (concat (map (\<lambda>c. if idOf c = Some x then [c, n] else [insertAfter x n c]) cs))"

text \<open>\<^verbatim>\<open>target.insertAdjacentElement("afterend", el)\<close>: nothing happens (the call returns
  \<^verbatim>\<open>null\<close>) when the target has no parent; otherwise \<open>el\<close> is taken out of its place
  and put right after the target among the children of the target's parent. The DOM
  refuses to insert an element that contains the target (\<^verbatim>\<open>HierarchyRequestError\<close>).
  \<^verbatim>\<open>unwrapBr\<close> calls it with \<open>el\<close> a child of the target, so \<open>el\<close> is in the tree.\<close>

datatype error = TypeError | HierarchyRequestError

definition insertAdjacentElement_afterend :: "nat \<Rightarrow> nat \<Rightarrow> node \<Rightarrow> error + node" where
  "insertAdjacentElement_afterend target el t =
     (case parentElement t target of
        None \<Rightarrow> Inr t
      | Some _ \<Rightarrow>
          (case rev (pathTo t el) of
             [] \<Rightarrow> Inr t
           | n # _ \<Rightarrow>
               if el \<in> set (map nid (pathTo t target)) then Inl HierarchyRequestError
               else Inr (insertAfter target n (remove el t))))"

section \<open>Break normalisation\<close>

definition inlineWrappers :: "string list" where
  "inlineWrappers = [''B'', ''DEL'', ''EM'', ''I'', ''STRONG'', ''SUB'', ''SUP'', ''SPAN'', ''U'']"

text \<open>The endless \<^verbatim>\<open>for (;;)\<close> of \<^verbatim>\<open>unwrapBr\<close>. \<open>None\<close> is a run that never returns,
  \<open>Some (Inl e)\<close> a thrown error (\<^verbatim>\<open>parent.tagName\<close> on a \<^verbatim>\<open>null\<close> parent is a
  \<^verbatim>\<open>TypeError\<close>), \<open>Some (Inr t)\<close> the tree on return.\<close>

partial_function (option) unwrapBr :: "nat \<Rightarrow> node \<Rightarrow> (error + node) option" where
  "unwrapBr br t =
     (if previousSibling t br \<noteq> None \<or> nextSibling t br \<noteq> None then Some (Inr t)
      else (case parentElement t br of
              None \<Rightarrow> Some (Inl TypeError)
            | Some parent \<Rightarrow>
                if tagName parent \<in> set inlineWrappers
                then (case insertAdjacentElement_afterend (nid parent) br t of
                        Inl e \<Rightarrow> Some (Inl e)
                      | Inr t1 \<Rightarrow> unwrapBr br (remove (nid parent) t1))
                else Some (Inr t)))"

declare unwrapBr.simps [code]

text \<open>\<^verbatim>\<open>Util.isAtNodeEnd\<close> lives in another module; \<^verbatim>\<open>removeTrailingBr\<close> takes it as the
  parameter \<open>atEnd\<close> (tree, element, ancestor).\<close>

definition removeTrailingBr :: "(node \<Rightarrow> nat \<Rightarrow> nat \<Rightarrow> bool) \<Rightarrow> node \<Rightarrow> node \<Rightarrow> node" where
  "removeTrailingBr atEnd br t =
     (if ckeFiller br = Some ''true'' then t
      else (case closest [''P'', ''TD''] t (nid br) of
              None \<Rightarrow> t
            | Some paragraphOrTableCell \<Rightarrow>
                if \<not> atEnd t (nid br) (nid paragraphOrTableCell) then t
                else if tagName paragraphOrTableCell = ''TD''
                        \<or> length (childNodes paragraphOrTableCell) > 1
                     then remove (nid br) t
                     else t))"

text \<open>Modelled from the spec: \<^verbatim>\<open>isAtNodeEnd\<close> of the module \<^verbatim>\<open>Dom/Util\<close>, which is not
  among the sources. The spec: the marker is the last rendered node within that
  container (no following sibling content, text or element). Every element on the way
  from the marker up to the container (the container excluded) has no next sibling.\<close>

definition isAtNodeEnd :: "node \<Rightarrow> nat \<Rightarrow> nat \<Rightarrow> bool" where
  "isAtNodeEnd t x ancestor =
     list_all (\<lambda>n. nextSibling t (nid n) = None)
       (drop 1 (dropWhile (\<lambda>n. nid n \<noteq> ancestor) (pathTo t x)))"

text \<open>The \<^verbatim>\<open>forEach\<close> of \<^verbatim>\<open>normalizeBr\<close> over the static list of markers.\<close>

fun normalizeBr_each :: "(node \<Rightarrow> nat \<Rightarrow> nat \<Rightarrow> bool) \<Rightarrow> node list \<Rightarrow> node \<Rightarrow> (error + node) option" where
  "normalizeBr_each atEnd [] t = Some (Inr t)"
| "normalizeBr_each atEnd (br # brs) t =
     (case unwrapBr (nid br) t of
        None \<Rightarrow> None
      | Some (Inl e) \<Rightarrow> Some (Inl e)
      | Some (Inr t1) \<Rightarrow> normalizeBr_each atEnd brs (removeTrailingBr atEnd br t1))"

definition normalizeBr :: "(node \<Rightarrow> nat \<Rightarrow> nat \<Rightarrow> bool) \<Rightarrow> node \<Rightarrow> (error + node) option" where
  "normalizeBr atEnd divEl = normalizeBr_each atEnd (querySelectorAll ''BR'' divEl) divEl"

section \<open>Spacer paragraphs\<close>

definition children :: "node \<Rightarrow> node list" where
  "children n = filter isElement (kids n)"

definition childElementCount :: "node \<Rightarrow> nat" where
  "childElementCount n = length (children n)"

definition isSpacerCandidate :: "node \<Rightarrow> bool" where
  "isSpacerCandidate paragraph =
     (childElementCount paragraph = 1 \<and>
      (case children paragraph of
         [] \<Rightarrow> False
       | child # _ \<Rightarrow> tagName child = ''BR'' \<and> ckeFiller child \<noteq> Some ''true''))"

definition getPossibleSpacerParagraphs :: "node \<Rightarrow> node list" where
  "getPossibleSpacerParagraphs divEl = filter isSpacerCandidate (querySelectorAll ''P'' divEl)"

text \<open>The inner \<^verbatim>\<open>while\<close> of \<^verbatim>\<open>reduceSpacerParagraphs\<close>; the result is \<^verbatim>\<open>offset\<close> when
  the loop is left.\<close>

function adjacentScan :: "node \<Rightarrow> nat list \<Rightarrow> nat \<Rightarrow> nat \<Rightarrow> nat \<Rightarrow> nat \<Rightarrow> nat" where
  "adjacentScan t paragraphs candidate i len offset =
     (if i + offset + 1 < len
      then (if nextElementSibling t candidate \<noteq> Some (paragraphs ! (i + offset + 1)) then offset
            else adjacentScan t paragraphs candidate i len (offset + 1))
      else offset)"
  by pat_completeness auto
termination
  by (relation "measure (\<lambda>(t, paragraphs, candidate, i, len, offset). len - (i + offset + 1))") auto

declare adjacentScan.simps [simp del]

text \<open>\<^verbatim>\<open>Math.ceil(offset / 2)\<close> on a natural number, and \<^verbatim>\<open>paragraphs.slice(a, b)\<close>.\<close>

definition ceilHalf :: "nat \<Rightarrow> nat" where
  "ceilHalf n = (n + 1) div 2"

definition slice :: "'a list \<Rightarrow> nat \<Rightarrow> nat \<Rightarrow> 'a list" where
  "slice xs a b = take (b - a) (drop a xs)"

definition numberOfParagraphsToRemove :: "nat \<Rightarrow> nat" where
  "numberOfParagraphsToRemove offset =
     (if offset mod 2 = 1 then ceilHalf offset else ceilHalf offset + 1)"

text \<open>The outer \<^verbatim>\<open>for\<close> of \<^verbatim>\<open>reduceSpacerParagraphs\<close>, from index \<open>i\<close>; \<open>len\<close> is the
  \<^verbatim>\<open>length\<close> read once at the start.\<close>

function reduceFrom :: "nat list \<Rightarrow> nat \<Rightarrow> nat \<Rightarrow> node \<Rightarrow> node" where
  "reduceFrom paragraphs len i t =
     (if i < len
      then (let candidate = paragraphs ! i;
                offset = adjacentScan t paragraphs candidate i len 0
            in if offset = 0 then reduceFrom paragraphs len (i + 1) (remove candidate t)
               else reduceFrom paragraphs len (i + offset + 1)
                      (fold remove (slice paragraphs i (i + numberOfParagraphsToRemove offset)) t))
      else t)"
  by pat_completeness auto
termination
  by (relation "measure (\<lambda>(paragraphs, len, i, t). len - i)") auto

declare reduceFrom.simps [simp del]

definition reduceSpacerParagraphs :: "node list \<Rightarrow> node \<Rightarrow> node" where
  "reduceSpacerParagraphs paragraphs t =
     (if length paragraphs = 0 then t
      else reduceFrom (map nid paragraphs) (length paragraphs) 0 t)"

section \<open>The entry point\<close>

text \<open>The argument of \<^verbatim>\<open>normalizeLegacyMessage\<close>: a textarea, with its \<^verbatim>\<open>value\<close> and
  whatever else it holds (the extension of the record), or some other element. The
  HTML parser behind the \<^verbatim>\<open>innerHTML\<close> setter and the serialiser behind its getter are
  the browser's: \<open>parse\<close> gives the children of the new \<^verbatim>\<open>div\<close>, \<open>serialize\<close> the markup
  of a list of children.\<close>

record textarea =
  "value" :: string

datatype 'a element = HTMLTextAreaElement "'a textarea_scheme" | OtherElement string

definition createDiv :: "node list \<Rightarrow> node" where
  "createDiv cs = Elem 0 ''DIV'' None cs"

definition normalizeTree :: "(node \<Rightarrow> nat \<Rightarrow> nat \<Rightarrow> bool) \<Rightarrow> node \<Rightarrow> (error + node) option" where
  "normalizeTree atEnd divEl =
     (case normalizeBr atEnd divEl of
        None \<Rightarrow> None
      | Some (Inl e) \<Rightarrow> Some (Inl e)
      | Some (Inr t1) \<Rightarrow> Some (Inr (reduceSpacerParagraphs (getPossibleSpacerParagraphs t1) t1)))"

definition normalizeLegacyMessage ::
    "(string \<Rightarrow> node list) \<Rightarrow> (node list \<Rightarrow> string) \<Rightarrow> (node \<Rightarrow> nat \<Rightarrow> nat \<Rightarrow> bool) \<Rightarrow>
     'a element \<Rightarrow> (error + 'a element) option" where
  "normalizeLegacyMessage parse serialize atEnd element =
     (case element of
        OtherElement k \<Rightarrow> Some (Inl TypeError)
      | HTMLTextAreaElement ta \<Rightarrow>
          (case normalizeTree atEnd (createDiv (parse (value ta))) of
             None \<Rightarrow> None
           | Some (Inl e) \<Rightarrow> Some (Inl e)
           | Some (Inr t) \<Rightarrow> Some (Inr (HTMLTextAreaElement (ta\<lparr>value := serialize (kids t)\<rparr>)))))"

section \<open>The document around the working tree\<close>

text \<open>
  The elements of a page are one object graph: the tree of the \<^verbatim>\<open>document\<close> and the trees
  that are detached from it, here the \<^verbatim>\<open>div\<close> that \<^verbatim>\<open>normalizeLegacyMessage\<close> creates. A
  DOM call names an element and acts on it wherever it is. This section reads the same
  code over the list \<open>ts\<close> of all trees: what is read about an element is read in the tree
  that holds it (\<open>treeOf\<close>), \<^verbatim>\<open>x.remove()\<close> takes \<open>x\<close> out of whatever tree it is in, and
  \<^verbatim>\<open>insertAdjacentElement\<close> moves an element to wherever the target is. The functions of
  the sections before are these functions on the working tree alone.
\<close>

definition treeOf :: "node list \<Rightarrow> nat \<Rightarrow> node option" where
  "treeOf ts x = List.find (\<lambda>t. x \<in> set (ids t)) ts"

definition pathToIn :: "node list \<Rightarrow> nat \<Rightarrow> node list" where
  "pathToIn ts x = (case treeOf ts x of None \<Rightarrow> [] | Some t \<Rightarrow> pathTo t x)"

text \<open>The element with the identity \<open>x\<close>, as it is now.\<close>

definition nodeIn :: "node list \<Rightarrow> nat \<Rightarrow> node option" where
  "nodeIn ts x = (case rev (pathToIn ts x) of [] \<Rightarrow> None | n # _ \<Rightarrow> Some n)"

definition parentElementIn :: "node list \<Rightarrow> nat \<Rightarrow> node option" where
  "parentElementIn ts x = (case treeOf ts x of None \<Rightarrow> None | Some t \<Rightarrow> parentElement t x)"

definition previousSiblingIn :: "node list \<Rightarrow> nat \<Rightarrow> node option" where
  "previousSiblingIn ts x = (case treeOf ts x of None \<Rightarrow> None | Some t \<Rightarrow> previousSibling t x)"

definition nextSiblingIn :: "node list \<Rightarrow> nat \<Rightarrow> node option" where
  "nextSiblingIn ts x = (case treeOf ts x of None \<Rightarrow> None | Some t \<Rightarrow> nextSibling t x)"

definition nextElementSiblingIn :: "node list \<Rightarrow> nat \<Rightarrow> nat option" where
  "nextElementSiblingIn ts x = (case treeOf ts x of None \<Rightarrow> None | Some t \<Rightarrow> nextElementSibling t x)"

definition closestIn :: "string list \<Rightarrow> node list \<Rightarrow> nat \<Rightarrow> node option" where
  "closestIn tags ts x = (case treeOf ts x of None \<Rightarrow> None | Some t \<Rightarrow> closest tags t x)"

definition atEndIn :: "(node \<Rightarrow> nat \<Rightarrow> nat \<Rightarrow> bool) \<Rightarrow> node list \<Rightarrow> nat \<Rightarrow> nat \<Rightarrow> bool" where
  "atEndIn atEnd ts x ancestor = (case treeOf ts x of None \<Rightarrow> False | Some t \<Rightarrow> atEnd t x ancestor)"

definition removeIn :: "nat \<Rightarrow> node list \<Rightarrow> node list" where
  "removeIn x ts = map (remove x) ts"

definition insertAdjacentElement_afterendIn :: "nat \<Rightarrow> nat \<Rightarrow> node list \<Rightarrow> error + node list" where
  "insertAdjacentElement_afterendIn target el ts =
     (case parentElementIn ts target of
        None \<Rightarrow> Inr ts
      | Some _ \<Rightarrow>
          (case nodeIn ts el of
             None \<Rightarrow> Inr ts
           | Some n \<Rightarrow>
               if el \<in> set (map nid (pathToIn ts target)) then Inl HierarchyRequestError
               else Inr (map (insertAfter target n) (removeIn el ts))))"

text \<open>\<^verbatim>\<open>unwrapBr\<close>, \<^verbatim>\<open>removeTrailingBr\<close> and \<^verbatim>\<open>normalizeBr\<close> over all trees; \<open>divEl\<close> is the identity
  of the \<^verbatim>\<open>div\<close>, whose markers \<^verbatim>\<open>div.querySelectorAll("br")\<close> lists.\<close>

partial_function (option) unwrapBrIn :: "nat \<Rightarrow> node list \<Rightarrow> (error + node list) option" where
  "unwrapBrIn br ts =
     (if previousSiblingIn ts br \<noteq> None \<or> nextSiblingIn ts br \<noteq> None then Some (Inr ts)
      else (case parentElementIn ts br of
              None \<Rightarrow> Some (Inl TypeError)
            | Some parent \<Rightarrow>
                if tagName parent \<in> set inlineWrappers
                then (case insertAdjacentElement_afterendIn (nid parent) br ts of
                        Inl e \<Rightarrow> Some (Inl e)
                      | Inr ts1 \<Rightarrow> unwrapBrIn br (removeIn (nid parent) ts1))
                else Some (Inr ts)))"

declare unwrapBrIn.simps [code]

definition removeTrailingBrIn :: "(node \<Rightarrow> nat \<Rightarrow> nat \<Rightarrow> bool) \<Rightarrow> node \<Rightarrow> node list \<Rightarrow> node list" where
  "removeTrailingBrIn atEnd br ts =
     (if ckeFiller br = Some ''true'' then ts
      else (case closestIn [''P'', ''TD''] ts (nid br) of
              None \<Rightarrow> ts
            | Some paragraphOrTableCell \<Rightarrow>
                if \<not> atEndIn atEnd ts (nid br) (nid paragraphOrTableCell) then ts
                else if tagName paragraphOrTableCell = ''TD''
                        \<or> length (childNodes paragraphOrTableCell) > 1
                     then removeIn (nid br) ts
                     else ts))"

fun normalizeBr_eachIn ::
    "(node \<Rightarrow> nat \<Rightarrow> nat \<Rightarrow> bool) \<Rightarrow> node list \<Rightarrow> node list \<Rightarrow> (error + node list) option" where
  "normalizeBr_eachIn atEnd [] ts = Some (Inr ts)"
| "normalizeBr_eachIn atEnd (br # brs) ts =
     (case unwrapBrIn (nid br) ts of
        None \<Rightarrow> None
      | Some (Inl e) \<Rightarrow> Some (Inl e)
      | Some (Inr ts1) \<Rightarrow> normalizeBr_eachIn atEnd brs (removeTrailingBrIn atEnd br ts1))"

definition normalizeBrIn :: "(node \<Rightarrow> nat \<Rightarrow> nat \<Rightarrow> bool) \<Rightarrow> nat \<Rightarrow> node list \<Rightarrow> (error + node list) option" where
  "normalizeBrIn atEnd divEl ts =
     normalizeBr_eachIn atEnd (case nodeIn ts divEl of None \<Rightarrow> [] | Some d \<Rightarrow> querySelectorAll ''BR'' d) ts"

text \<open>\<^verbatim>\<open>getPossibleSpacerParagraphs\<close> and \<^verbatim>\<open>reduceSpacerParagraphs\<close> over all trees.\<close>

definition getPossibleSpacerParagraphsIn :: "nat \<Rightarrow> node list \<Rightarrow> node list" where
  "getPossibleSpacerParagraphsIn divEl ts =
     (case nodeIn ts divEl of None \<Rightarrow> [] | Some d \<Rightarrow> getPossibleSpacerParagraphs d)"

function adjacentScanIn :: "node list \<Rightarrow> nat list \<Rightarrow> nat \<Rightarrow> nat \<Rightarrow> nat \<Rightarrow> nat \<Rightarrow> nat" where
  "adjacentScanIn ts paragraphs candidate i len offset =
     (if i + offset + 1 < len
      then (if nextElementSiblingIn ts candidate \<noteq> Some (paragraphs ! (i + offset + 1)) then offset
            else adjacentScanIn ts paragraphs candidate i len (offset + 1))
      else offset)"
  by pat_completeness auto
termination
  by (relation "measure (\<lambda>(ts, paragraphs, candidate, i, len, offset). len - (i + offset + 1))") auto

declare adjacentScanIn.simps [simp del]

function reduceFromIn :: "nat list \<Rightarrow> nat \<Rightarrow> nat \<Rightarrow> node list \<Rightarrow> node list" where
  "reduceFromIn paragraphs len i ts =
     (if i < len
      then (let candidate = paragraphs ! i;
                offset = adjacentScanIn ts paragraphs candidate i len 0
            in if offset = 0 then reduceFromIn paragraphs len (i + 1) (removeIn candidate ts)
               else reduceFromIn paragraphs len (i + offset + 1)
                      (fold removeIn (slice paragraphs i (i + numberOfParagraphsToRemove offset)) ts))
      else ts)"
  by pat_completeness auto
termination
  by (relation "measure (\<lambda>(paragraphs, len, i, ts). len - i)") auto

declare reduceFromIn.simps [simp del]

definition reduceSpacerParagraphsIn :: "node list \<Rightarrow> node list \<Rightarrow> node list" where
  "reduceSpacerParagraphsIn paragraphs ts =
     (if length paragraphs = 0 then ts
      else reduceFromIn (map nid paragraphs) (length paragraphs) 0 ts)"

text \<open>The \<^verbatim>\<open>innerHTML\<close> getter of the \<^verbatim>\<open>div\<close>. The state a call of
  \<^verbatim>\<open>normalizeLegacyMessage\<close> can see: the tree of the document and, for every element that
  is a textarea, what the textarea holds. The argument \<open>element\<close> is the identity of an
  element; \<^verbatim>\<open>document.createElement("div")\<close> and the \<^verbatim>\<open>innerHTML\<close> setter build the new
  tree \<open>createDiv (parse (value ta))\<close> beside the document; the result is \<^verbatim>\<open>undefined\<close>
  (the unit value) and the state after the call.\<close>

definition innerHTMLIn :: "(node list \<Rightarrow> string) \<Rightarrow> nat \<Rightarrow> node list \<Rightarrow> string" where
  "innerHTMLIn serialize divEl ts = serialize (case nodeIn ts divEl of None \<Rightarrow> [] | Some d \<Rightarrow> kids d)"

record 'a world =
  document :: node
  textareas :: "nat \<Rightarrow> 'a textarea_scheme option"

definition normalizeLegacyMessageIn ::
    "(string \<Rightarrow> node list) \<Rightarrow> (node list \<Rightarrow> string) \<Rightarrow> (node \<Rightarrow> nat \<Rightarrow> nat \<Rightarrow> bool) \<Rightarrow>
     nat \<Rightarrow> 'a world \<Rightarrow> (error + unit \<times> 'a world) option" where
  "normalizeLegacyMessageIn parse serialize atEnd element w =
     (case textareas w element of
        None \<Rightarrow> Some (Inl TypeError)
      | Some ta \<Rightarrow>
          (let divEl = createDiv (parse (value ta));
               ts = [document w, divEl]
           in case normalizeBrIn atEnd (nid divEl) ts of
                None \<Rightarrow> None
              | Some (Inl e) \<Rightarrow> Some (Inl e)
              | Some (Inr ts1) \<Rightarrow>
                  (let paragraphs = getPossibleSpacerParagraphsIn (nid divEl) ts1;
                       ts2 = reduceSpacerParagraphsIn paragraphs ts1
                   in Some (Inr ((), w\<lparr>document := hd ts2,
                                       textareas := (textareas w)
                                         (element \<mapsto> ta\<lparr>value := innerHTMLIn serialize (nid divEl) ts2\<rparr>)\<rparr>)))))"

section \<open>Auxiliary notions for the proofs\<close>

text \<open>The reducer as the pairwise removal it amounts to: the first member of each pair
  of adjacent entries is removed and the second skipped; an entry with no adjacent
  successor is removed.\<close>

fun removePairwise :: "nat list \<Rightarrow> node \<Rightarrow> node" where
  "removePairwise [] t = t"
| "removePairwise [p] t = remove p t"
| "removePairwise (p # q # ps) t =
     (if nextElementSibling t p = Some q then removePairwise ps (remove p t)
      else removePairwise (q # ps) (remove p t))"

text \<open>A tree as the HTML parser builds it: every element is one object (the identities
  are pairwise distinct) and \<^verbatim>\<open>br\<close> is a void element (it has no children).\<close>

fun brLeaf :: "node \<Rightarrow> bool" where
  "brLeaf (Text s) = True"
| "brLeaf (Elem i tg f cs) = ((tg \<noteq> ''BR'' \<or> cs = []) \<and> list_all brLeaf cs)"

definition wellFormed :: "node \<Rightarrow> bool" where
  "wellFormed t = (distinct (ids t) \<and> brLeaf t)"

text \<open>The identities of a list of sibling subtrees.\<close>

definition fids :: "node list \<Rightarrow> nat list" where
  "fids cs = concat (map ids cs)"

text \<open>One-hole contexts: a frame is an element with the siblings to the left and to the
  right of the hole; \<open>plug C m\<close> puts \<open>m\<close> into the hole of the context \<open>C\<close> (outermost
  frame first), \<open>spine C m\<close> is the chain of elements from the root down to \<open>m\<close>, and
  \<open>cids C\<close> are the identities of the context.\<close>

datatype frame = Frame nat string "string option" "node list" "node list"

fun plug :: "frame list \<Rightarrow> node \<Rightarrow> node" where
  "plug [] m = m"
| "plug (Frame i tg f ls rs # C) m = Elem i tg f (ls @ plug C m # rs)"

fun spine :: "frame list \<Rightarrow> node \<Rightarrow> node list" where
  "spine [] m = [m]"
| "spine (Frame i tg f ls rs # C) m = Elem i tg f (ls @ plug C m # rs) # spine C m"

fun cids :: "frame list \<Rightarrow> nat list" where
  "cids [] = []"
| "cids (Frame i tg f ls rs # C) = i # fids ls @ fids rs @ cids C"

text \<open>The spacer paragraph of the specification: a block boundary container (a paragraph
  or a table cell) whose only child is a line-break marker that is not a filler.\<close>

definition isSpacerParagraph_spec :: "node \<Rightarrow> bool" where
  "isSpacerParagraph_spec n =
     (tagName n \<in> set [''P'', ''TD''] \<and>
      (case kids n of
         [child] \<Rightarrow> isElement child \<and> tagName child = ''BR'' \<and> ckeFiller child \<noteq> Some ''true''
       | _ \<Rightarrow> False))"

section \<open>A serialiser and a parser for the examples\<close>

text \<open>The examples need a concrete browser. \<open>innerHTML\<close> writes a list of children as HTML
  (lower-case tags, \<^verbatim>\<open>br\<close> without an end tag); \<open>exampleParse\<close> reads the few markups the
  examples use as an HTML parser does, numbering the elements in document order from 1,
  and reads anything else as no content.\<close>

definition toLower :: "char \<Rightarrow> char" where
  "toLower c = (let n = (of_char c :: nat) in if 65 \<le> n \<and> n \<le> 90 then char_of (n + 32) else c)"

fun outerHTML :: "node \<Rightarrow> string" where
  "outerHTML (Text s) = s"
| "outerHTML (Elem i tg f cs) =
     ''<'' @ map toLower tg
       @ (case f of None \<Rightarrow> [] | Some v \<Rightarrow> '' data-cke-filler='' @ [CHR 0x22] @ v @ [CHR 0x22])
       @ ''>''
       @ (if tg = ''BR'' then [] else concat (map outerHTML cs) @ ''</'' @ map toLower tg @ ''>'')"

definition innerHTML :: "node list \<Rightarrow> string" where
  "innerHTML cs = concat (map outerHTML cs)"

definition spacer :: "nat \<Rightarrow> nat \<Rightarrow> node" where
  "spacer p b = Elem p ''P'' None [Elem b ''BR'' None []]"

definition fillerBr :: string where
  "fillerBr = ''<br data-cke-filler='' @ [CHR 0x22] @ ''true'' @ [CHR 0x22] @ ''>''"

definition exampleParse :: "string \<Rightarrow> node list" where
  "exampleParse s =
     (if s = ''<p><br></p><p><br></p><p><br></p><p><br></p>''
        then [spacer 1 2, spacer 3 4, spacer 5 6, spacer 7 8]
      else if s = ''<p><br></p><p><br></p>'' then [spacer 1 2, spacer 3 4]
      else if s = ''<p><br></p>'' then [spacer 1 2]
      else if s = ''<p>a</p>'' then [Elem 1 ''P'' None [Text ''a'']]
      else if s = ''<p>a'' @ fillerBr @ ''b<br></p>''
        then [Elem 1 ''P'' None [Text ''a'', Elem 2 ''BR'' (Some ''true'') [], Text ''b'', Elem 3 ''BR'' None []]]
      else if s = ''<p>a'' @ fillerBr @ ''b</p>''
        then [Elem 1 ''P'' None [Text ''a'', Elem 2 ''BR'' (Some ''true'') [], Text ''b'']]
      else [])"

text \<open>A marker wrapped in a chain of elements, each the only child of the one before:
  \<open>wrapIn [(w\<^sub>1, t\<^sub>1, f\<^sub>1), \<dots>, (w\<^sub>k, t\<^sub>k, f\<^sub>k)] n\<close> is
  \<open>Elem w\<^sub>1 t\<^sub>1 f\<^sub>1 [\<dots> [Elem w\<^sub>k t\<^sub>k f\<^sub>k [n]]]\<close>.\<close>

fun wrapIn :: "(nat \<times> string \<times> string option) list \<Rightarrow> node \<Rightarrow> node" where
  "wrapIn [] n = n"
| "wrapIn ((w, tg, f) # ws) n = Elem w tg f [wrapIn ws n]"

fun wrapperFrame :: "frame \<Rightarrow> bool" where
  "wrapperFrame (Frame w tg f ls rs) = (tg \<in> set inlineWrappers \<and> ls = [] \<and> rs = [])"

text \<open>What never changes about an element: its identity, its tag and its filler flag.
  \<open>sigs t\<close> lists them for the elements of \<open>t\<close> in document order, \<open>csigs C\<close> for the
  elements of a context.\<close>

definition sigOf :: "node \<Rightarrow> nat \<times> string \<times> string option" where
  "sigOf n = (nid n, tagName n, ckeFiller n)"

definition sigs :: "node \<Rightarrow> (nat \<times> string \<times> string option) list" where
  "sigs t = map sigOf (subElems t)"

definition fsigs :: "node list \<Rightarrow> (nat \<times> string \<times> string option) list" where
  "fsigs cs = concat (map sigs cs)"

fun csigs :: "frame list \<Rightarrow> (nat \<times> string \<times> string option) list" where
  "csigs [] = []"
| "csigs (Frame i tg f ls rs # C) = (i, tg, f) # fsigs ls @ fsigs rs @ csigs C"

fun brLeafCtx :: "frame list \<Rightarrow> bool" where
  "brLeafCtx [] = True"
| "brLeafCtx (Frame i tg f ls rs # C) =
     (tg \<noteq> ''BR'' \<and> list_all brLeaf ls \<and> list_all brLeaf rs \<and> brLeafCtx C)"

text \<open>The markers still to be visited by \<^verbatim>\<open>normalizeBr\<close> are in the tree.\<close>

definition brInv :: "node \<Rightarrow> node list \<Rightarrow> bool" where
  "brInv t brs =
     (wellFormed t \<and> tagName t \<notin> set inlineWrappers \<and> distinct (map nid brs) \<and>
      list_all (\<lambda>b. tagName b = ''BR'' \<and> nid b \<noteq> nid t \<and> sigOf b \<in> set (sigs t)) brs)"

text \<open>A filler marker, by what never changes about it; and a tree in which no element
  with an identity in \<open>X\<close> has a filler marker in its subtree.\<close>

definition isFillerSig :: "nat \<times> string \<times> string option \<Rightarrow> bool" where
  "isFillerSig s = (fst (snd s) = ''BR'' \<and> snd (snd s) = Some ''true'')"

fun guarded :: "nat set \<Rightarrow> node \<Rightarrow> bool" where
  "guarded X (Text s) = True"
| "guarded X (Elem i tg f cs) =
     ((i \<notin> X \<or> list_all (\<lambda>s. \<not> isFillerSig s) ((i, tg, f) # concat (map sigs cs)))
      \<and> list_all (guarded X) cs)"

text \<open>The entries of a list of candidates that the pairwise removal skips, read off the
  adjacency \<open>adj\<close> alone; the second, fourth, \<dots> members of a list; and a tree in which
  no element with an identity in \<open>X\<close> lies below another one.\<close>

fun survivors :: "(nat \<Rightarrow> nat option) \<Rightarrow> nat list \<Rightarrow> nat list" where
  "survivors adj [] = []"
| "survivors adj [p] = []"
| "survivors adj (p # q # ps) =
     (if adj p = Some q then q # survivors adj ps else survivors adj (q # ps))"

fun oddElems :: "'a list \<Rightarrow> 'a list" where
  "oddElems [] = []"
| "oddElems [x] = []"
| "oddElems (x # y # zs) = y # oddElems zs"

fun antichain :: "nat set \<Rightarrow> node \<Rightarrow> bool" where
  "antichain X (Text s) = True"
| "antichain X (Elem i tg f cs) =
     ((i \<notin> X \<or> list_all (\<lambda>j. j \<notin> X) (concat (map ids cs))) \<and> list_all (antichain X) cs)"

text \<open>What holds of the tree and of the candidates still to be visited while the reducer
  runs: the candidates are distinct elements of the tree below the root, none lies below
  another (\<open>X\<close> holds the identities of all candidates), and none is the next element
  sibling of a later one.\<close>

definition reduceInv :: "nat set \<Rightarrow> node \<Rightarrow> nat list \<Rightarrow> bool" where
  "reduceInv X t ps =
     (distinct (ids t) \<and> set ps \<subseteq> X \<and> antichain X t \<and> distinct ps \<and>
      list_all (\<lambda>y. y \<in> set (ids t) \<and> y \<noteq> nid t) ps \<and>
      sorted_wrt (\<lambda>a b. nextElementSibling t b \<noteq> Some a) ps)"




text \<open>The parent links of a tree: one entry for every element that is a child of an
  element, with the identity and the tag of the parent, the number of child nodes of the
  parent, and the identity of the child. \<open>clinks C r\<close> are the links of a context whose
  hole holds a node with \<open>idOf\<close> equal to \<open>r\<close>.\<close>

fun links :: "node \<Rightarrow> (nat \<times> string \<times> nat \<times> nat) list" where
  "links (Text s) = []"
| "links (Elem i tg f cs) =
     map (\<lambda>j. (i, tg, length cs, j)) (List.map_filter idOf cs) @ concat (map links cs)"

definition flinks :: "node list \<Rightarrow> (nat \<times> string \<times> nat \<times> nat) list" where
  "flinks cs = concat (map links cs)"

fun rootOf :: "frame list \<Rightarrow> nat option \<Rightarrow> nat option" where
  "rootOf [] r = r"
| "rootOf (Frame i tg f ls rs # C) r = Some i"

fun clinks :: "frame list \<Rightarrow> nat option \<Rightarrow> (nat \<times> string \<times> nat \<times> nat) list" where
  "clinks [] r = []"
| "clinks (Frame i tg f ls rs # C) r =
     map (\<lambda>j. (i, tg, length ls + 1 + length rs, j))
       (List.map_filter idOf ls @ (case rootOf C r of None \<Rightarrow> [] | Some j \<Rightarrow> [j]) @ List.map_filter idOf rs)
     @ flinks ls @ flinks rs @ clinks C r"

section \<open>The reducer is a pairwise removal\<close>

lemma adjacentScan_distinct:
  assumes "distinct ps" and "i < length ps"
  shows "adjacentScan t ps (ps ! i) i (length ps) 0 =
           (if i + 1 < length ps \<and> nextElementSibling t (ps ! i) = Some (ps ! (i + 1)) then 1 else 0)"
proof (cases "i + 1 < length ps \<and> nextElementSibling t (ps ! i) = Some (ps ! (i + 1))")
  case False
  then show ?thesis by (subst adjacentScan.simps) auto
next
  case True
  have "i + 2 < length ps \<Longrightarrow> ps ! (i + 1) \<noteq> ps ! (i + 2)"
    using assms(1) by (simp add: nth_eq_iff_index_eq)
  then have "adjacentScan t ps (ps ! i) i (length ps) 1 = 1"
    using True by (subst adjacentScan.simps) auto
  then show ?thesis
    using True by (subst adjacentScan.simps) auto
qed

lemma reduceFrom_pairwise:
  assumes "distinct ps"
  shows "i \<le> length ps \<Longrightarrow> reduceFrom ps (length ps) i t = removePairwise (drop i ps) t"
proof (induction "length ps - i" arbitrary: i t rule: less_induct)
  case less
  show ?case
  proof (cases "i < length ps")
    case False
    then show ?thesis using less.prems by (subst reduceFrom.simps) simp
  next
    case True
    let ?p = "ps ! i"
    have d: "drop i ps = ?p # drop (Suc i) ps"
      using True by (simp add: Cons_nth_drop_Suc)
    show ?thesis
    proof (cases "i + 1 < length ps \<and> nextElementSibling t ?p = Some (ps ! (i + 1))")
      case adj: True
      then have sc: "adjacentScan t ps ?p i (length ps) 0 = 1"
        using adjacentScan_distinct[OF assms True] by simp
      have d2: "drop (Suc i) ps = ps ! (i + 1) # drop (i + 2) ps"
        using adj by (simp add: Cons_nth_drop_Suc)
      have sl: "slice ps i (i + numberOfParagraphsToRemove 1) = [?p]"
        using True by (simp add: slice_def numberOfParagraphsToRemove_def ceilHalf_def d take_Suc_conv_app_nth)
      have "reduceFrom ps (length ps) i t = reduceFrom ps (length ps) (i + 2) (remove ?p t)"
        using True sc sl by (subst reduceFrom.simps) (simp add: Let_def)
      also have "\<dots> = removePairwise (drop (i + 2) ps) (remove ?p t)"
        using adj by (intro less.hyps) auto
      finally show ?thesis using adj d d2 by simp
    next
      case nadj: False
      then have sc: "adjacentScan t ps ?p i (length ps) 0 = 0"
        using adjacentScan_distinct[OF assms True] by simp
      have "reduceFrom ps (length ps) i t = reduceFrom ps (length ps) (i + 1) (remove ?p t)"
        using True sc by (subst reduceFrom.simps) (simp add: Let_def)
      also have "\<dots> = removePairwise (drop (i + 1) ps) (remove ?p t)"
        using True by (intro less.hyps) auto
      finally have eq: "reduceFrom ps (length ps) i t = removePairwise (drop (i + 1) ps) (remove ?p t)" .
      show ?thesis
      proof (cases "i + 1 < length ps")
        case False
        then show ?thesis using eq d by simp
      next
        case lt: True
        then have d2: "drop (Suc i) ps = ps ! (i + 1) # drop (i + 2) ps"
          by (simp add: Cons_nth_drop_Suc)
        show ?thesis using eq d d2 nadj lt by simp
      qed
    qed
  qed
qed

section \<open>Which entries the pairwise removal skips\<close>

lemma survivors_subset: "set (survivors adj ps) \<subseteq> set ps"
  by (induction adj ps rule: survivors.induct) auto

lemma survivors_cong:
  "(\<And>y. y \<in> set ps \<Longrightarrow> adj y = adj' y) \<Longrightarrow> survivors adj ps = survivors adj' ps"
  by (induction adj ps rule: survivors.induct) auto

lemma survivors_boundary:
  assumes "pre = [] \<or> rest = [] \<or> adj (last pre) \<noteq> Some (hd rest)"
  shows "survivors adj (pre @ rest) = survivors adj pre @ survivors adj rest"
  using assms
proof (induction adj pre rule: survivors.induct)
  case (1 adj)
  then show ?case by simp
next
  case (2 adj p)
  then show ?case by (cases rest) auto
next
  case (3 adj p q ps)
  then show ?case by (cases ps) auto
qed

lemma survivors_chain:
  assumes "\<forall>k. k + 1 < length run \<longrightarrow> adj (run ! k) = Some (run ! (k + 1))"
    and "run = [] \<or> post = [] \<or> adj (last run) \<noteq> Some (hd post)"
  shows "survivors adj (run @ post) = oddElems run @ survivors adj post"
  using assms
proof (induction run rule: oddElems.induct)
  case 1
  then show ?case by simp
next
  case (2 x)
  then show ?case by (cases post) auto
next
  case (3 x y zs)
  have xy: "adj x = Some y" using 3(2)[rule_format, of 0] by simp
  have ch: "\<forall>k. k + 1 < length zs \<longrightarrow> adj (zs ! k) = Some (zs ! (k + 1))"
  proof (intro allI impI)
    fix k assume "k + 1 < length zs"
    then show "adj (zs ! k) = Some (zs ! (k + 1))"
      using 3(2)[rule_format, of "k + 2"] by simp
  qed
  have bd: "zs = [] \<or> post = [] \<or> adj (last zs) \<noteq> Some (hd post)"
    using 3(3) by (cases zs) auto
  show ?case using xy 3(1)[OF ch bd] by simp
qed

lemma oddElems_subset: "set (oddElems xs) \<subseteq> set xs"
  by (induction xs rule: oddElems.induct) auto

lemma length_oddElems: "length (oddElems xs) = length xs div 2"
  by (induction xs rule: oddElems.induct) auto

lemma filter_oddElems:
  "distinct xs \<Longrightarrow> filter (\<lambda>x. x \<in> set (oddElems xs)) xs = oddElems xs"
proof (induction xs rule: oddElems.induct)
  case (3 x y zs)
  have n: "x \<notin> set (oddElems zs)" "y \<notin> set (oddElems zs)" "x \<noteq> y"
    using 3(2) oddElems_subset[of zs] by auto
  have "filter (\<lambda>a. a \<in> set (oddElems (x # y # zs))) zs = filter (\<lambda>a. a \<in> set (oddElems zs)) zs"
    using 3(2) by (intro filter_cong) auto
  then show ?case using 3 n by simp
qed simp_all

lemma survivors_run:
  assumes d: "distinct (pre @ run @ post)"
    and chain: "\<forall>k. k + 1 < length run \<longrightarrow> adj (run ! k) = Some (run ! (k + 1))"
    and left: "pre = [] \<or> run = [] \<or> adj (last pre) \<noteq> Some (hd run)"
    and right: "run = [] \<or> post = [] \<or> adj (last run) \<noteq> Some (hd post)"
  shows "filter (\<lambda>x. x \<in> set (survivors adj (pre @ run @ post))) run = oddElems run"
proof (cases "run = []")
  case True
  then show ?thesis by simp
next
  case False
  then have l: "pre = [] \<or> run @ post = [] \<or> adj (last pre) \<noteq> Some (hd (run @ post))"
    using left by auto
  have s: "survivors adj (pre @ run @ post)
             = survivors adj pre @ oddElems run @ survivors adj post"
    using survivors_boundary[of pre "run @ post" adj] l survivors_chain[OF chain right] by simp
  have "filter (\<lambda>x. x \<in> set (survivors adj (pre @ run @ post))) run
          = filter (\<lambda>x. x \<in> set (oddElems run)) run"
  proof (rule filter_cong[OF refl])
    fix x assume x: "x \<in> set run"
    then have "x \<notin> set (survivors adj pre)" "x \<notin> set (survivors adj post)"
      using d survivors_subset[of adj pre] survivors_subset[of adj post] by auto
    then show "(x \<in> set (survivors adj (pre @ run @ post))) = (x \<in> set (oddElems run))"
      unfolding s by auto
  qed
  moreover have "distinct run" using d by simp
  ultimately show ?thesis by (simp add: filter_oddElems)
qed

lemma oddElems_map: "oddElems (map g xs) = map g (oddElems xs)"
  by (induction xs rule: oddElems.induct) auto

section \<open>Trees in context\<close>

lemma ids_Text [simp]: "ids (Text s) = []"
  by (simp add: ids_def)

lemma ids_Elem [simp]: "ids (Elem i tg f cs) = i # fids cs"
  by (simp add: ids_def[abs_def] fids_def map_concat comp_def)

lemma fids_simps [simp]:
  "fids [] = []" "fids (c # cs) = ids c @ fids cs" "fids (xs @ ys) = fids xs @ fids ys"
  by (simp_all add: fids_def)

lemma idOf_in_ids: "idOf c = Some x \<Longrightarrow> x \<in> set (ids c)"
  by (cases c) auto

lemma idOf_in_fids: "c \<in> set cs \<Longrightarrow> idOf c = Some x \<Longrightarrow> x \<in> set (fids cs)"
  by (induction cs) (auto dest: idOf_in_ids)

lemma plug_append: "plug (C @ D) m = plug C (plug D m)"
  by (induction C m rule: plug.induct) auto

lemma spine_hd: "spine D m = plug D m # tl (spine D m)"
  by (cases "(D, m)" rule: spine.cases) auto

lemma spine_append: "spine (C @ D) m = spine C (plug D m) @ tl (spine D m)"
proof (induction C)
  case Nil
  show ?case using spine_hd[of D m] by simp
next
  case (Cons F C)
  then show ?case by (cases F) (simp add: plug_append)
qed

lemma cids_append [simp]: "cids (C @ D) = cids C @ cids D"
  by (induction C rule: cids.induct) auto

lemma set_ids_plug: "set (ids (plug C m)) = set (cids C) \<union> set (ids m)"
  by (induction C m rule: plug.induct) auto

lemma distinct_ids_plug:
  "distinct (ids (plug C m)) \<longleftrightarrow> distinct (cids C) \<and> distinct (ids m) \<and> set (cids C) \<inter> set (ids m) = {}"
  by (induction C m rule: plug.induct) (auto simp: set_ids_plug)

lemma pathTo_absent: "x \<notin> set (ids t) \<Longrightarrow> pathTo t x = []"
proof (induction t)
  case (Elem i tg f cs)
  then have "\<And>c. c \<in> set cs \<Longrightarrow> pathTo c x = []"
    by (auto simp: fids_def)
  then have "concat (map (\<lambda>c. pathTo c x) cs) = []" by simp
  with Elem.prems show ?case by (simp del: concat_eq_Nil_conv)
qed simp

lemma pathTo_forest_absent: "x \<notin> set (fids cs) \<Longrightarrow> concat (map (\<lambda>c. pathTo c x) cs) = []"
  by (induction cs) (auto simp: pathTo_absent)

lemma spine_nonempty [simp]: "spine C m \<noteq> []"
  by (cases "(C, m)" rule: spine.cases) auto

lemma pathTo_plug:
  "distinct (ids (plug C m)) \<Longrightarrow> idOf m = Some x \<Longrightarrow> pathTo (plug C m) x = spine C m"
proof (induction C m rule: plug.induct)
  case (1 m)
  then show ?case by (cases m) auto
next
  case (2 i tg f ls rs C m)
  have x: "x \<in> set (ids (plug C m))"
    using 2(3) by (auto simp: set_ids_plug dest: idOf_in_ids)
  with 2(2) have "i \<noteq> x" "x \<notin> set (fids ls)" "x \<notin> set (fids rs)" by auto
  moreover have "pathTo (plug C m) x = spine C m" using 2 by auto
  ultimately show ?case
    by (cases "spine C m") (auto simp: pathTo_forest_absent)
qed

lemma in_fids_iff: "x \<in> set (fids cs) \<longleftrightarrow> (\<exists>c\<in>set cs. x \<in> set (ids c))"
  by (auto simp: fids_def)

lemma ids_decompose:
  "x \<in> set (ids t) \<Longrightarrow> \<exists>C tg f cs. t = plug C (Elem x tg f cs)"
proof (induction t)
  case (Elem i tg f cs)
  show ?case
  proof (cases "i = x")
    case True
    then have "Elem i tg f cs = plug [] (Elem x tg f cs)" by simp
    then show ?thesis by blast
  next
    case False
    with Elem.prems obtain c where c: "c \<in> set cs" "x \<in> set (ids c)"
      by (auto simp: in_fids_iff)
    then obtain C tg' f' cs' where C: "c = plug C (Elem x tg' f' cs')"
      using Elem.IH by blast
    from c(1) obtain ls rs where "cs = ls @ c # rs"
      by (auto dest: split_list)
    then have "Elem i tg f cs = plug (Frame i tg f ls rs # C) (Elem x tg' f' cs')"
      using C by simp
    then show ?thesis by blast
  qed
qed simp


lemma spine_last: "\<exists>ns. spine C m = ns @ [m]"
proof (induction C)
  case (Cons F C)
  then show ?case by (cases F) auto
qed simp

lemma not_in_fids_idOf: "x \<notin> set (fids ls) \<Longrightarrow> c \<in> set ls \<Longrightarrow> idOf c \<noteq> Some x"
  by (auto dest: idOf_in_fids)

lemma siblingsBefore_focus:
  "x \<notin> set (fids ls) \<Longrightarrow> idOf m = Some x \<Longrightarrow> siblingsBefore (ls @ m # rs) x = ls"
  by (simp add: siblingsBefore_def not_in_fids_idOf)

lemma siblingsAfter_focus:
  "x \<notin> set (fids ls) \<Longrightarrow> idOf m = Some x \<Longrightarrow> siblingsAfter (ls @ m # rs) x = rs"
  by (simp add: siblingsAfter_def dropWhile_append2 not_in_fids_idOf)

text \<open>The focus: a tree \<open>plug C (Elem p tg f (ls @ m # rs))\<close> with distinct identities,
  where \<open>m\<close> is the element \<open>x\<close>.\<close>

lemma focus_distinct:
  assumes "distinct (ids (plug C (Elem p tg f (ls @ m # rs))))" and "idOf m = Some x"
  shows "x \<notin> set (fids ls)" "x \<notin> set (fids rs)" "x \<noteq> p" "x \<notin> set (cids C)"
  using assms idOf_in_ids[OF assms(2)] by (auto simp: distinct_ids_plug)

lemma pathTo_focus:
  assumes "distinct (ids (plug C (Elem p tg f (ls @ m # rs))))" and "idOf m = Some x"
  shows "pathTo (plug C (Elem p tg f (ls @ m # rs))) x = spine C (Elem p tg f (ls @ m # rs)) @ [m]"
  using pathTo_plug[of "C @ [Frame p tg f ls rs]" m x] assms
  by (simp add: spine_append plug_append)

lemma parentElement_focus:
  assumes "distinct (ids (plug C (Elem p tg f (ls @ m # rs))))" and "idOf m = Some x"
  shows "parentElement (plug C (Elem p tg f (ls @ m # rs))) x = Some (Elem p tg f (ls @ m # rs))"
proof -
  obtain ns where "spine C (Elem p tg f (ls @ m # rs)) = ns @ [Elem p tg f (ls @ m # rs)]"
    using spine_last by blast
  then show ?thesis
    by (simp add: parentElement_def pathTo_focus[OF assms])
qed

lemma parentElement_root:
  "parentElement (Elem i tg f cs) i = None"
  by (simp add: parentElement_def)

lemma previousSibling_focus:
  assumes "distinct (ids (plug C (Elem p tg f (ls @ m # rs))))" and "idOf m = Some x"
  shows "previousSibling (plug C (Elem p tg f (ls @ m # rs))) x = (case rev ls of [] \<Rightarrow> None | c # _ \<Rightarrow> Some c)"
  using focus_distinct(1)[OF assms]
  by (simp add: previousSibling_def parentElement_focus[OF assms] siblingsBefore_focus assms(2))

lemma nextSibling_focus:
  assumes "distinct (ids (plug C (Elem p tg f (ls @ m # rs))))" and "idOf m = Some x"
  shows "nextSibling (plug C (Elem p tg f (ls @ m # rs))) x = (case rs of [] \<Rightarrow> None | c # _ \<Rightarrow> Some c)"
  using focus_distinct(1)[OF assms]
  by (simp add: nextSibling_def parentElement_focus[OF assms] siblingsAfter_focus assms(2))

lemma nextElementSibling_focus:
  assumes "distinct (ids (plug C (Elem p tg f (ls @ m # rs))))" and "idOf m = Some x"
  shows "nextElementSibling (plug C (Elem p tg f (ls @ m # rs))) x =
           (case List.map_filter idOf rs of [] \<Rightarrow> None | i # _ \<Rightarrow> Some i)"
  using focus_distinct(1)[OF assms]
  by (simp add: nextElementSibling_def parentElement_focus[OF assms] siblingsAfter_focus assms(2))

lemma remove_absent: "x \<notin> set (ids t) \<Longrightarrow> remove x t = t"
proof (induction t)
  case (Elem i tg f cs)
  have a: "\<forall>c\<in>set cs. idOf c \<noteq> Some x"
    using Elem.prems by (auto dest: idOf_in_fids)
  have b: "\<forall>c\<in>set cs. remove x c = c"
    using Elem.IH Elem.prems by (auto simp: in_fids_iff)
  have "filter (\<lambda>c. idOf c \<noteq> Some x) cs = cs"
    using a by (simp add: filter_id_conv)
  moreover have "map (remove x) cs = cs"
    using b by (simp add: map_idI)
  ultimately show ?case by simp
qed simp

lemma remove_forest_absent:
  assumes "x \<notin> set (fids cs)"
  shows "map (remove x) (filter (\<lambda>c. idOf c \<noteq> Some x) cs) = cs"
proof -
  have "filter (\<lambda>c. idOf c \<noteq> Some x) cs = cs"
    using assms by (auto simp: filter_id_conv dest: idOf_in_fids)
  moreover have "map (remove x) cs = cs"
    using assms by (intro map_idI remove_absent) (auto simp: in_fids_iff)
  ultimately show ?thesis by simp
qed

lemma remove_plug_step:
  assumes "x \<noteq> i" "x \<notin> set (fids ls)" "x \<notin> set (fids rs)" "idOf c \<noteq> Some x"
  shows "remove x (Elem i tg f (ls @ c # rs)) = Elem i tg f (ls @ remove x c # rs)"
  using assms by (simp add: remove_forest_absent)

lemma idOf_plug: "idOf (plug C m) = (case C of [] \<Rightarrow> idOf m | Frame i tg f ls rs # D \<Rightarrow> Some i)"
  by (cases "(C, m)" rule: plug.cases) auto

lemma idOf_plug_neq: "x \<notin> set (cids C) \<Longrightarrow> idOf m \<noteq> Some x \<Longrightarrow> idOf (plug C m) \<noteq> Some x"
  by (cases "(C, m)" rule: plug.cases) auto

lemma remove_plug:
  "x \<notin> set (cids C) \<Longrightarrow> idOf m \<noteq> Some x \<Longrightarrow> remove x (plug C m) = plug C (remove x m)"
proof (induction C)
  case (Cons F C)
  obtain i tg f ls rs where F: "F = Frame i tg f ls rs" by (cases F)
  have x: "x \<noteq> i" "x \<notin> set (fids ls)" "x \<notin> set (fids rs)" "x \<notin> set (cids C)"
    using Cons.prems(1) unfolding F by simp_all
  have "idOf (plug C m) \<noteq> Some x"
    using x(4) Cons.prems(2) by (rule idOf_plug_neq)
  then have "remove x (Elem i tg f (ls @ plug C m # rs)) = Elem i tg f (ls @ remove x (plug C m) # rs)"
    using x by (intro remove_plug_step)
  then show ?case
    using Cons.IH[OF x(4) Cons.prems(2)] unfolding F by simp
qed simp

lemma remove_focus:
  assumes "distinct (ids (plug C (Elem p tg f (ls @ m # rs))))" and "idOf m = Some x"
  shows "remove x (plug C (Elem p tg f (ls @ m # rs))) = plug C (Elem p tg f (ls @ rs))"
proof -
  note d = focus_distinct[OF assms]
  have "remove x (Elem p tg f (ls @ m # rs)) = Elem p tg f (ls @ rs)"
    using d(1,2) assms(2) by (simp add: remove_forest_absent)
  moreover have "remove x (plug C (Elem p tg f (ls @ m # rs))) = plug C (remove x (Elem p tg f (ls @ m # rs)))"
    using d(3,4) by (intro remove_plug) auto
  ultimately show ?thesis by simp
qed

lemma concat_map_singleton: "(\<And>c. c \<in> set cs \<Longrightarrow> g c = [c]) \<Longrightarrow> concat (map g cs) = cs"
  by (induction cs) auto

lemma insertAfter_absent: "x \<notin> set (ids t) \<Longrightarrow> insertAfter x n t = t"
proof (induction t)
  case (Elem i tg f cs)
  have "\<And>c. c \<in> set cs \<Longrightarrow> (if idOf c = Some x then [c, n] else [insertAfter x n c]) = [c]"
    using Elem.IH Elem.prems by (auto simp: in_fids_iff dest: idOf_in_fids)
  then have "concat (map (\<lambda>c. if idOf c = Some x then [c, n] else [insertAfter x n c]) cs) = cs"
    by (rule concat_map_singleton)
  then show ?case by simp
qed simp

lemma insertAfter_forest_absent:
  assumes "x \<notin> set (fids cs)"
  shows "concat (map (\<lambda>c. if idOf c = Some x then [c, n] else [insertAfter x n c]) cs) = cs"
proof -
  have "\<And>c. c \<in> set cs \<Longrightarrow> (if idOf c = Some x then [c, n] else [insertAfter x n c]) = [c]"
    using assms by (auto simp: in_fids_iff insertAfter_absent dest: idOf_in_fids)
  then show ?thesis
    by (rule concat_map_singleton)
qed

lemma insertAfter_plug_step:
  assumes "x \<notin> set (fids ls)" "x \<notin> set (fids rs)" "idOf c \<noteq> Some x"
  shows "insertAfter x n (Elem i tg f (ls @ c # rs)) = Elem i tg f (ls @ insertAfter x n c # rs)"
  using assms by (simp add: insertAfter_forest_absent)

lemma insertAfter_plug:
  "x \<notin> set (cids C) \<Longrightarrow> idOf m \<noteq> Some x \<Longrightarrow> insertAfter x n (plug C m) = plug C (insertAfter x n m)"
proof (induction C)
  case (Cons F C)
  obtain i tg f ls rs where F: "F = Frame i tg f ls rs" by (cases F)
  have x: "x \<notin> set (fids ls)" "x \<notin> set (fids rs)" "x \<notin> set (cids C)"
    using Cons.prems(1) unfolding F by simp_all
  have "idOf (plug C m) \<noteq> Some x"
    using x(3) Cons.prems(2) by (rule idOf_plug_neq)
  then have "insertAfter x n (Elem i tg f (ls @ plug C m # rs)) = Elem i tg f (ls @ insertAfter x n (plug C m) # rs)"
    using x by (intro insertAfter_plug_step)
  then show ?case
    using Cons.IH[OF x(3) Cons.prems(2)] unfolding F by simp
qed simp

lemma insertAfter_focus:
  assumes "distinct (ids (plug C (Elem p tg f (ls @ m # rs))))" and "idOf m = Some x"
  shows "insertAfter x n (plug C (Elem p tg f (ls @ m # rs))) = plug C (Elem p tg f (ls @ m # n # rs))"
proof -
  note d = focus_distinct[OF assms]
  have "insertAfter x n (Elem p tg f (ls @ m # rs)) = Elem p tg f (ls @ m # n # rs)"
    using d(1,2) assms(2) by (simp add: insertAfter_forest_absent)
  moreover have "insertAfter x n (plug C (Elem p tg f (ls @ m # rs))) = plug C (insertAfter x n (Elem p tg f (ls @ m # rs)))"
    using d(3,4) by (intro insertAfter_plug) auto
  ultimately show ?thesis by simp
qed

section \<open>The unwrap loop\<close>

lemma nid_spine: "idOf m = Some x \<Longrightarrow> set (map nid (spine C m)) \<subseteq> insert x (set (cids C))"
proof (induction C)
  case Nil
  then show ?case by (cases m) auto
next
  case (Cons F C)
  then show ?case by (cases F) auto
qed

lemma unwrapBr_step:
  assumes d: "distinct (ids (plug C (Elem a ta fa (ls @ Elem w tw fw [n] # rs))))"
    and n: "idOf n = Some br" and tw: "tw \<in> set inlineWrappers"
  shows "unwrapBr br (plug C (Elem a ta fa (ls @ Elem w tw fw [n] # rs)))
           = unwrapBr br (plug C (Elem a ta fa (ls @ n # rs)))"
proof -
  let ?W = "Elem w tw fw [n]"
  let ?t = "plug C (Elem a ta fa (ls @ ?W # rs))"
  let ?C' = "C @ [Frame a ta fa ls rs]"
  have t': "?t = plug ?C' (Elem w tw fw ([] @ n # []))"
    by (simp add: plug_append)
  have d': "distinct (ids (plug ?C' (Elem w tw fw ([] @ n # []))))"
    using d t' by simp
  note fd = focus_distinct[OF d' n]
  have prev: "previousSibling ?t br = None"
    unfolding t' using previousSibling_focus[OF d' n] by simp
  have nxt: "nextSibling ?t br = None"
    unfolding t' using nextSibling_focus[OF d' n] by simp
  have par: "parentElement ?t br = Some ?W"
    unfolding t' using parentElement_focus[OF d' n] by simp
  have w: "idOf ?W = Some w" by simp
  have parw: "parentElement ?t w = Some (Elem a ta fa (ls @ ?W # rs))"
    using parentElement_focus[OF d w] .
  have pathbr: "pathTo ?t br = spine ?C' ?W @ [n]"
    unfolding t' using pathTo_focus[OF d' n] by simp
  have pathw: "pathTo ?t w = spine C (Elem a ta fa (ls @ ?W # rs)) @ [?W]"
    using pathTo_focus[OF d w] .
  have "set (map nid (spine C (Elem a ta fa (ls @ ?W # rs)))) \<subseteq> insert a (set (cids C))"
    by (rule nid_spine) simp
  then have notin: "br \<notin> set (map nid (pathTo ?t w))"
    using fd unfolding pathw by auto
  have rm: "remove br ?t = plug C (Elem a ta fa (ls @ Elem w tw fw [] # rs))"
    unfolding t' using remove_focus[OF d' n] by (simp add: plug_append)
  have d1: "distinct (ids (plug C (Elem a ta fa (ls @ Elem w tw fw [] # rs))))"
    using d by (auto simp: distinct_ids_plug)
  have w1: "idOf (Elem w tw fw []) = Some w" by simp
  have ins: "insertAfter w n (plug C (Elem a ta fa (ls @ Elem w tw fw [] # rs)))
               = plug C (Elem a ta fa (ls @ Elem w tw fw [] # n # rs))"
    using insertAfter_focus[OF d1 w1] .
  have d2: "distinct (ids (plug C (Elem a ta fa (ls @ Elem w tw fw [] # n # rs))))"
    using d by (auto simp: distinct_ids_plug)
  have rm2: "remove w (plug C (Elem a ta fa (ls @ Elem w tw fw [] # n # rs)))
               = plug C (Elem a ta fa (ls @ n # rs))"
    using remove_focus[OF d2 w1] .
  have iae: "insertAdjacentElement_afterend w br ?t = Inr (plug C (Elem a ta fa (ls @ Elem w tw fw [] # n # rs)))"
    using notin by (simp add: insertAdjacentElement_afterend_def parw pathbr rm ins)
  show ?thesis
    by (subst unwrapBr.simps) (simp add: prev nxt par tw iae rm2)
qed

lemma unwrapBr_stop:
  assumes d: "distinct (ids (plug C (Elem p tg f (ls @ n # rs))))"
    and n: "idOf n = Some br" and stop: "ls \<noteq> [] \<or> rs \<noteq> [] \<or> tg \<notin> set inlineWrappers"
  shows "unwrapBr br (plug C (Elem p tg f (ls @ n # rs))) = Some (Inr (plug C (Elem p tg f (ls @ n # rs))))"
proof -
  let ?t = "plug C (Elem p tg f (ls @ n # rs))"
  have prev: "previousSibling ?t br = (case rev ls of [] \<Rightarrow> None | c # _ \<Rightarrow> Some c)"
    using previousSibling_focus[OF d n] .
  have nxt: "nextSibling ?t br = (case rs of [] \<Rightarrow> None | c # _ \<Rightarrow> Some c)"
    using nextSibling_focus[OF d n] .
  have par: "parentElement ?t br = Some (Elem p tg f (ls @ n # rs))"
    using parentElement_focus[OF d n] .
  show ?thesis
    using stop
    by (subst unwrapBr.simps) (auto simp: prev nxt par split: list.splits)
qed

lemma unwrapBr_step_ctx:
  assumes K: "K \<noteq> []" and d: "distinct (ids (plug K (Elem w tw fw [n])))"
    and n: "idOf n = Some br" and tw: "tw \<in> set inlineWrappers"
  shows "unwrapBr br (plug K (Elem w tw fw [n])) = unwrapBr br (plug K n)"
proof -
  obtain C F where KF: "K = C @ [F]"
    using K by (cases K rule: rev_cases) auto
  obtain a ta fa ls rs where F: "F = Frame a ta fa ls rs" by (cases F)
  show ?thesis
    using unwrapBr_step[of C a ta fa ls w tw fw n rs br] d n tw
    unfolding KF F by (simp add: plug_append)
qed

lemma unwrapBr_wrappers:
  assumes "K \<noteq> []" and "list_all wrapperFrame D" and "distinct (ids (plug (K @ D) n))"
    and "idOf n = Some br"
  shows "unwrapBr br (plug (K @ D) n) = unwrapBr br (plug K n)"
  using assms
proof (induction D rule: rev_induct)
  case Nil
  then show ?case by simp
next
  case (snoc F D)
  obtain w tw fw where F: "F = Frame w tw fw [] []" and tw: "tw \<in> set inlineWrappers"
    using snoc.prems(2) by (cases F) auto
  have eq: "plug (K @ D @ [F]) n = plug (K @ D) (Elem w tw fw [n])"
    unfolding F by (simp add: plug_append)
  have d: "distinct (ids (plug (K @ D) (Elem w tw fw [n])))"
    using snoc.prems(3) eq by simp
  have d': "distinct (ids (plug (K @ D) n))"
    using d by (auto simp: distinct_ids_plug)
  have "unwrapBr br (plug (K @ D @ [F]) n) = unwrapBr br (plug (K @ D) n)"
    unfolding eq using snoc.prems(1) d snoc.prems(4) tw by (intro unwrapBr_step_ctx) auto
  also have "\<dots> = unwrapBr br (plug K n)"
    using snoc.prems d' by (intro snoc.IH) auto
  finally show ?case by simp
qed

lemma wrapIn_plug: "wrapIn ws n = plug (map (\<lambda>(w, tg, f). Frame w tg f [] []) ws) n"
  by (induction ws n rule: wrapIn.induct) auto

lemma unwrapBr_chain_aux:
  assumes d: "distinct (ids (plug C (Elem a ta fa (ls @ wrapIn ws n # rs))))"
    and n: "idOf n = Some br"
    and ws: "list_all (\<lambda>(w, tg, f). tg \<in> set inlineWrappers) ws"
    and ta: "ta \<notin> set inlineWrappers"
  shows "unwrapBr br (plug C (Elem a ta fa (ls @ wrapIn ws n # rs)))
           = Some (Inr (plug C (Elem a ta fa (ls @ n # rs))))"
proof -
  let ?K = "C @ [Frame a ta fa ls rs]"
  let ?D = "map (\<lambda>(w, tg, f). Frame w tg f [] []) ws"
  have eq: "plug C (Elem a ta fa (ls @ wrapIn ws n # rs)) = plug (?K @ ?D) n"
    by (simp add: plug_append wrapIn_plug)
  have D: "list_all wrapperFrame ?D"
    using ws by (induction ws) auto
  have "unwrapBr br (plug (?K @ ?D) n) = unwrapBr br (plug ?K n)"
    using D d n unfolding eq by (intro unwrapBr_wrappers) auto
  moreover have K: "plug ?K n = plug C (Elem a ta fa (ls @ n # rs))"
    by (simp add: plug_append)
  moreover have "distinct (ids (plug ?K n))"
    using d unfolding eq distinct_ids_plug cids_append by auto
  ultimately show ?thesis
    using unwrapBr_stop[of C a ta fa ls n rs br] n ta unfolding eq by simp
qed

section \<open>What the break normalisation preserves\<close>

lemma sigs_Text [simp]: "sigs (Text s) = []"
  by (simp add: sigs_def)

lemma sigs_Elem [simp]: "sigs (Elem i tg f cs) = (i, tg, f) # fsigs cs"
  by (simp add: sigs_def[abs_def] fsigs_def sigOf_def map_concat comp_def)

lemma fsigs_simps [simp]:
  "fsigs [] = []" "fsigs (c # cs) = sigs c @ fsigs cs" "fsigs (xs @ ys) = fsigs xs @ fsigs ys"
  by (simp_all add: fsigs_def)

lemma ids_sigs: "ids t = map fst (sigs t)"
  by (simp add: ids_def sigs_def sigOf_def comp_def)

lemma fids_fsigs: "fids cs = map fst (fsigs cs)"
  by (simp add: fids_def fsigs_def ids_sigs[abs_def] map_concat comp_def)

lemma cids_csigs: "cids C = map fst (csigs C)"
  by (induction C rule: cids.induct) (auto simp: fids_fsigs)

lemma csigs_append [simp]: "csigs (C @ D) = csigs C @ csigs D"
  by (induction C rule: csigs.induct) auto

lemma set_sigs_plug: "set (sigs (plug C m)) = set (csigs C) \<union> set (sigs m)"
  by (induction C m rule: plug.induct) auto

lemma brLeafCtx_append [simp]: "brLeafCtx (C @ D) \<longleftrightarrow> brLeafCtx C \<and> brLeafCtx D"
  by (induction C rule: brLeafCtx.induct) auto

lemma brLeaf_plug: "brLeaf (plug C m) \<longleftrightarrow> brLeafCtx C \<and> brLeaf m"
  by (induction C m rule: plug.induct) auto

lemma root_plug:
  "K \<noteq> [] \<Longrightarrow> nid (plug (K @ D) n) = nid (plug K m) \<and> tagName (plug (K @ D) n) = tagName (plug K m)"
  by (cases "(K, m)" rule: plug.cases) auto

lemma sig_unique:
  assumes "distinct (ids t)" "s \<in> set (sigs t)" "s' \<in> set (sigs t)" "fst s = fst s'"
  shows "s = s'"
  using assms unfolding ids_sigs by (metis distinct_map inj_onD)

lemma unwrapBr_prefix:
  assumes "K \<noteq> []" and "distinct (ids (plug K n))" and "idOf n = Some br"
    and "tagName (plug K n) \<notin> set inlineWrappers"
  shows "\<exists>K' D. K = K' @ D \<and> K' \<noteq> [] \<and> list_all wrapperFrame D
            \<and> unwrapBr br (plug K n) = Some (Inr (plug K' n))"
  using assms
proof (induction K rule: rev_induct)
  case Nil
  then show ?case by simp
next
  case (snoc F G)
  obtain p tg f ls rs where F: "F = Frame p tg f ls rs" by (cases F)
  have eq: "plug (G @ [F]) n = plug G (Elem p tg f (ls @ n # rs))"
    unfolding F by (simp add: plug_append)
  have d: "distinct (ids (plug G (Elem p tg f (ls @ n # rs))))"
    using snoc.prems(2) eq by simp
  show ?case
  proof (cases "ls \<noteq> [] \<or> rs \<noteq> [] \<or> tg \<notin> set inlineWrappers")
    case True
    then have "unwrapBr br (plug (G @ [F]) n) = Some (Inr (plug (G @ [F]) n))"
      unfolding eq using d snoc.prems(3) by (intro unwrapBr_stop)
    then show ?thesis
      by (intro exI[of _ "G @ [F]"] exI[of _ "[]"]) simp
  next
    case False
    then have w: "wrapperFrame F" and lr: "ls = []" "rs = []" and tg: "tg \<in> set inlineWrappers"
      unfolding F by auto
    have G: "G \<noteq> []"
    proof
      assume "G = []"
      then have "tagName (plug (G @ [F]) n) = tg" unfolding F by simp
      then show False using snoc.prems(4) tg by simp
    qed
    have st: "unwrapBr br (plug (G @ [F]) n) = unwrapBr br (plug G n)"
      using unwrapBr_wrappers[of G "[F]" n br] G w snoc.prems(2,3) by simp
    have dG: "distinct (ids (plug G n))"
      using snoc.prems(2) unfolding distinct_ids_plug cids_append by auto
    have rt: "tagName (plug G n) \<notin> set inlineWrappers"
      using root_plug[OF G, of "[F]" n n] snoc.prems(4) by simp
    obtain K' D where "G = K' @ D" "K' \<noteq> []" "list_all wrapperFrame D"
      "unwrapBr br (plug G n) = Some (Inr (plug K' n))"
      using snoc.IH[OF G dG snoc.prems(3) rt] by blast
    then show ?thesis
      using st w by (intro exI[of _ K'] exI[of _ "D @ [F]"]) simp
  qed
qed

lemma csigs_wrappers:
  "list_all wrapperFrame D \<Longrightarrow> s \<in> set (csigs D) \<Longrightarrow> fst (snd s) \<in> set inlineWrappers"
proof (induction D)
  case (Cons F D)
  then show ?case by (cases F) auto
qed simp

lemma brLeafCtx_wrappers: "list_all wrapperFrame D \<Longrightarrow> brLeafCtx D"
proof (induction D)
  case (Cons F D)
  then show ?case by (cases F) (auto simp: inlineWrappers_def)
qed simp

lemma unwrapBr_inv:
  assumes wf: "wellFormed t" and rt: "tagName t \<notin> set inlineWrappers"
    and x: "x \<in> set (ids t)" and nr: "x \<noteq> nid t"
  shows "\<exists>t'. unwrapBr x t = Some (Inr t') \<and> wellFormed t' \<and> nid t' = nid t
            \<and> tagName t' = tagName t \<and> set (sigs t') \<subseteq> set (sigs t)
            \<and> (\<forall>s\<in>set (sigs t). fst (snd s) \<in> set inlineWrappers \<or> s \<in> set (sigs t'))"
proof -
  obtain K tg f cs where t: "t = plug K (Elem x tg f cs)"
    using ids_decompose[OF x] by blast
  let ?n = "Elem x tg f cs"
  have K: "K \<noteq> []" using nr t by auto
  have d: "distinct (ids (plug K ?n))" and bl: "brLeaf (plug K ?n)"
    using wf t by (auto simp: wellFormed_def)
  obtain K' D where KD: "K = K' @ D" "K' \<noteq> []" "list_all wrapperFrame D"
    and u: "unwrapBr x (plug K ?n) = Some (Inr (plug K' ?n))"
    using unwrapBr_prefix[OF K d _ rt[unfolded t]] by auto
  have "distinct (ids (plug K' ?n))"
    using d unfolding KD distinct_ids_plug cids_append by auto
  moreover have "brLeaf (plug K' ?n)"
    using bl unfolding KD brLeaf_plug by simp
  moreover have "nid (plug K' ?n) = nid t \<and> tagName (plug K' ?n) = tagName t"
    using root_plug[OF KD(2), of D ?n ?n] unfolding t KD by simp
  moreover have "set (sigs (plug K' ?n)) \<subseteq> set (sigs t)"
    unfolding t KD set_sigs_plug by auto
  moreover have "\<forall>s\<in>set (sigs t). fst (snd s) \<in> set inlineWrappers \<or> s \<in> set (sigs (plug K' ?n))"
    unfolding t KD set_sigs_plug using csigs_wrappers[OF KD(3)] by auto
  ultimately show ?thesis
    using u unfolding t wellFormed_def by blast
qed

lemma remove_root: "distinct (ids (Elem x tg f cs)) \<Longrightarrow> remove x (Elem x tg f cs) = Elem x tg f cs"
  by (simp add: remove_forest_absent)

lemma remove_cases:
  assumes "distinct (ids t)"
  shows "remove x t = t
       \<or> (\<exists>G p tg f ls n rs. t = plug G (Elem p tg f (ls @ n # rs)) \<and> idOf n = Some x
             \<and> remove x t = plug G (Elem p tg f (ls @ rs)))"
proof (cases "x \<in> set (ids t)")
  case False
  then show ?thesis by (simp add: remove_absent)
next
  case True
  then obtain K tg f cs where t: "t = plug K (Elem x tg f cs)"
    using ids_decompose by blast
  show ?thesis
  proof (cases K rule: rev_cases)
    case Nil
    then show ?thesis using assms t remove_root by auto
  next
    case (snoc G F)
    obtain p tg' f' ls rs where F: "F = Frame p tg' f' ls rs" by (cases F)
    have eq: "t = plug G (Elem p tg' f' (ls @ Elem x tg f cs # rs))"
      unfolding t snoc F by (simp add: plug_append)
    have "remove x t = plug G (Elem p tg' f' (ls @ rs))"
      unfolding eq using assms[unfolded eq] by (intro remove_focus) auto
    then show ?thesis using eq by (intro disjI2) (metis idOf.simps(2))
  qed
qed

lemma root_plug_same:
  "nid (plug G (Elem p tg f xs)) = nid (plug G (Elem p tg f ys))
   \<and> tagName (plug G (Elem p tg f xs)) = tagName (plug G (Elem p tg f ys))"
  by (cases "(G, Elem p tg f xs)" rule: plug.cases) auto

lemma brLeaf_sigs_leaf:
  assumes "brLeaf n" "tagName n = ''BR''" "isElement n"
  shows "sigs n = [sigOf n]"
  using assms by (cases n) (auto simp: sigOf_def)

lemma sigOf_in_sigs: "isElement n \<Longrightarrow> sigOf n \<in> set (sigs n)"
  by (cases n) (auto simp: sigOf_def)

lemma idOf_nid: "idOf n = Some x \<Longrightarrow> isElement n \<and> nid n = x"
  by (cases n) auto

lemma remove_inv:
  assumes wf: "wellFormed t" and s: "(x, ''BR'', fl) \<in> set (sigs t)"
  shows "wellFormed (remove x t) \<and> nid (remove x t) = nid t \<and> tagName (remove x t) = tagName t
       \<and> set (sigs (remove x t)) \<subseteq> set (sigs t)
       \<and> (\<forall>s\<in>set (sigs t). s = (x, ''BR'', fl) \<or> s \<in> set (sigs (remove x t)))"
proof -
  have d: "distinct (ids t)" and bl: "brLeaf t" using wf by (auto simp: wellFormed_def)
  from remove_cases[OF d, of x] show ?thesis
  proof
    assume "remove x t = t"
    then show ?thesis using wf by simp
  next
    assume "\<exists>G p tg f ls n rs. t = plug G (Elem p tg f (ls @ n # rs)) \<and> idOf n = Some x
             \<and> remove x t = plug G (Elem p tg f (ls @ rs))"
    then obtain G p tg f ls n rs where t: "t = plug G (Elem p tg f (ls @ n # rs))"
      and n: "idOf n = Some x" and r: "remove x t = plug G (Elem p tg f (ls @ rs))"
      by blast
    have nel: "isElement n" "nid n = x" using idOf_nid[OF n] by auto
    have "sigOf n \<in> set (sigs t)"
      unfolding t set_sigs_plug using sigOf_in_sigs[OF nel(1)] by auto
    then have sn: "sigOf n = (x, ''BR'', fl)"
      using sig_unique[OF d _ s] nel(2) by (simp add: sigOf_def)
    then have tn: "tagName n = ''BR''" by (simp add: sigOf_def)
    have "brLeaf n" using bl unfolding t brLeaf_plug by simp
    then have sgn: "sigs n = [(x, ''BR'', fl)]"
      using brLeaf_sigs_leaf[OF _ tn nel(1)] sn by simp
    note d' = d[unfolded t distinct_ids_plug] and bl' = bl[unfolded t brLeaf_plug]
    have st: "set (sigs t) = set (csigs G) \<union> set (sigs (Elem p tg f (ls @ n # rs)))"
      unfolding t set_sigs_plug ..
    have "distinct (ids (remove x t))"
      unfolding r distinct_ids_plug using d' by auto
    moreover have "brLeaf (remove x t)"
      unfolding r brLeaf_plug using bl' by auto
    moreover have "nid (remove x t) = nid t \<and> tagName (remove x t) = tagName t"
      unfolding r using root_plug_same[of G p tg f "ls @ rs" "ls @ n # rs"] t by simp
    moreover have "set (sigs (remove x t)) \<subseteq> set (sigs t)"
      unfolding r st set_sigs_plug by auto
    moreover have "\<forall>s\<in>set (sigs t). s = (x, ''BR'', fl) \<or> s \<in> set (sigs (remove x t))"
      unfolding r st set_sigs_plug using sgn by auto
    ultimately show ?thesis by (simp add: wellFormed_def)
  qed
qed

lemma removeTrailingBr_cases:
  "removeTrailingBr atEnd b t = t
   \<or> (ckeFiller b \<noteq> Some ''true'' \<and> removeTrailingBr atEnd b t = remove (nid b) t)"
  by (auto simp: removeTrailingBr_def split: option.splits)

lemma removeTrailingBr_inv:
  assumes wf: "wellFormed t" and b: "tagName b = ''BR''" "sigOf b \<in> set (sigs t)"
  shows "wellFormed (removeTrailingBr atEnd b t) \<and> nid (removeTrailingBr atEnd b t) = nid t
       \<and> tagName (removeTrailingBr atEnd b t) = tagName t
       \<and> set (sigs (removeTrailingBr atEnd b t)) \<subseteq> set (sigs t)
       \<and> (\<forall>s\<in>set (sigs t). (s = sigOf b \<and> ckeFiller b \<noteq> Some ''true'')
             \<or> s \<in> set (sigs (removeTrailingBr atEnd b t)))"
proof -
  have s: "(nid b, ''BR'', ckeFiller b) \<in> set (sigs t)"
    using b by (simp add: sigOf_def)
  from removeTrailingBr_cases[of atEnd b t] show ?thesis
  proof
    assume "removeTrailingBr atEnd b t = t"
    then show ?thesis using wf by simp
  next
    assume a: "ckeFiller b \<noteq> Some ''true'' \<and> removeTrailingBr atEnd b t = remove (nid b) t"
    have sb: "sigOf b = (nid b, ''BR'', ckeFiller b)" using b(1) by (simp add: sigOf_def)
    show ?thesis
      using remove_inv[OF wf s] a unfolding sb by auto
  qed
qed

lemma normalizeBr_each_inv:
  assumes "brInv t brs"
  shows "\<exists>t'. normalizeBr_each atEnd brs t = Some (Inr t') \<and> wellFormed t' \<and> nid t' = nid t
            \<and> tagName t' = tagName t \<and> set (sigs t') \<subseteq> set (sigs t)
            \<and> (\<forall>s\<in>set (sigs t). fst (snd s) \<in> set inlineWrappers
                  \<or> (s \<in> sigOf ` set brs \<and> snd (snd s) \<noteq> Some ''true'')
                  \<or> s \<in> set (sigs t'))"
  using assms
proof (induction brs arbitrary: t)
  case Nil
  then show ?case by (simp add: brInv_def)
next
  case (Cons b bs)
  have wf: "wellFormed t" and rt: "tagName t \<notin> set inlineWrappers"
    and db: "distinct (map nid (b # bs))"
    and b: "tagName b = ''BR''" "nid b \<noteq> nid t" "sigOf b \<in> set (sigs t)"
    and bs: "\<forall>c\<in>set bs. tagName c = ''BR'' \<and> nid c \<noteq> nid t \<and> sigOf c \<in> set (sigs t)"
    using Cons.prems by (auto simp: brInv_def list_all_iff)
  have "nid b \<in> set (ids t)"
    using b(3) unfolding ids_sigs sigOf_def by force
  then obtain t1 where u: "unwrapBr (nid b) t = Some (Inr t1)" and wf1: "wellFormed t1"
    and r1: "nid t1 = nid t" "tagName t1 = tagName t" and sub1: "set (sigs t1) \<subseteq> set (sigs t)"
    and keep1: "\<forall>s\<in>set (sigs t). fst (snd s) \<in> set inlineWrappers \<or> s \<in> set (sigs t1)"
    using unwrapBr_inv[OF wf rt _ b(2)] by blast
  have notw: "''BR'' \<notin> set inlineWrappers" by (simp add: inlineWrappers_def)
  have brs1: "sigOf c \<in> set (sigs t1)" if "c \<in> set (b # bs)" for c
  proof -
    have c: "tagName c = ''BR''" "sigOf c \<in> set (sigs t)"
      using that b bs by auto
    then have "fst (snd (sigOf c)) \<notin> set inlineWrappers"
      using notw by (simp add: sigOf_def)
    then show ?thesis using keep1 c(2) by blast
  qed
  define t2 where "t2 = removeTrailingBr atEnd b t1"
  have inv2: "wellFormed t2" "nid t2 = nid t1" "tagName t2 = tagName t1"
    "set (sigs t2) \<subseteq> set (sigs t1)"
    and keep2: "\<forall>s\<in>set (sigs t1). (s = sigOf b \<and> ckeFiller b \<noteq> Some ''true'') \<or> s \<in> set (sigs t2)"
    using removeTrailingBr_inv[OF wf1 b(1) brs1[of b], of atEnd] unfolding t2_def by auto
  have "brInv t2 bs"
  proof -
    have "sigOf c \<in> set (sigs t2)" if "c \<in> set bs" for c
    proof -
      have "nid b \<notin> nid ` set bs" using db by simp
      then have "nid c \<noteq> nid b" using that by (metis imageI)
      then have "sigOf c \<noteq> sigOf b" by (auto simp: sigOf_def)
      then show ?thesis using keep2 brs1[of c] that by auto
    qed
    then show ?thesis
      using inv2 r1 rt db bs by (auto simp: brInv_def list_all_iff)
  qed
  then obtain t' where res: "normalizeBr_each atEnd bs t2 = Some (Inr t')" "wellFormed t'"
    "nid t' = nid t2" "tagName t' = tagName t2" "set (sigs t') \<subseteq> set (sigs t2)"
    and keep3: "\<forall>s\<in>set (sigs t2). fst (snd s) \<in> set inlineWrappers
                  \<or> (s \<in> sigOf ` set bs \<and> snd (snd s) \<noteq> Some ''true'')
                  \<or> s \<in> set (sigs t')"
    using Cons.IH by blast
  have run: "normalizeBr_each atEnd (b # bs) t = Some (Inr t')"
    using u res(1) by (simp add: t2_def)
  have keep: "fst (snd s) \<in> set inlineWrappers
                  \<or> (s \<in> sigOf ` set (b # bs) \<and> snd (snd s) \<noteq> Some ''true'')
                  \<or> s \<in> set (sigs t')" if s: "s \<in> set (sigs t)" for s
  proof -
    consider "fst (snd s) \<in> set inlineWrappers" | "s \<in> set (sigs t1)"
      using keep1 s by blast
    then show ?thesis
    proof cases
      case 2
      then consider "s = sigOf b \<and> ckeFiller b \<noteq> Some ''true''" | "s \<in> set (sigs t2)"
        using keep2 by blast
      then show ?thesis
      proof cases
        case 1
        then show ?thesis by (auto simp: sigOf_def)
      next
        case 2
        then show ?thesis using keep3 by auto
      qed
    qed simp
  qed
  show ?case
    using run res inv2 r1 sub1 keep by (intro exI[of _ t']) auto
qed

lemma descendants_Elem [simp]: "descendants (Elem i tg f cs) = concat (map subElems cs)"
  by (simp add: descendants_def)

lemma subElems_descendants: "subElems (Elem i tg f cs) = Elem i tg f cs # descendants (Elem i tg f cs)"
  by simp

lemma descendants_facts:
  assumes "distinct (ids (Elem i tg f cs))" and "b \<in> set (descendants (Elem i tg f cs))"
  shows "b \<in> set (subElems (Elem i tg f cs))" "nid b \<noteq> i" "sigOf b \<in> set (sigs (Elem i tg f cs))"
proof -
  show 1: "b \<in> set (subElems (Elem i tg f cs))" using assms(2) by simp
  have "nid b \<in> set (fids cs)"
    using assms(2) by (auto simp: fids_def ids_def)
  then show "nid b \<noteq> i" using assms(1) by auto
  show "sigOf b \<in> set (sigs (Elem i tg f cs))"
    using 1 unfolding sigs_def by (metis image_eqI set_map)
qed

lemma distinct_descendants:
  assumes "distinct (ids (Elem i tg f cs))"
  shows "distinct (map nid (filter P (descendants (Elem i tg f cs))))"
proof -
  have "distinct (map nid (descendants (Elem i tg f cs)))"
    using assms by (simp add: ids_def)
  then show ?thesis by (rule distinct_map_filter)
qed

lemma brInv_querySelectorAll:
  assumes "wellFormed (Elem i tg f cs)" and "tg \<notin> set inlineWrappers"
  shows "brInv (Elem i tg f cs) (querySelectorAll ''BR'' (Elem i tg f cs))"
proof -
  have d: "distinct (ids (Elem i tg f cs))" using assms(1) by (simp add: wellFormed_def)
  show ?thesis
    unfolding brInv_def querySelectorAll_def list_all_iff
    using assms distinct_descendants[OF d] descendants_facts[OF d]
    by auto
qed

lemma normalizeBr_inv:
  assumes "wellFormed (Elem i tg f cs)" and "tg \<notin> set inlineWrappers"
  shows "\<exists>t'. normalizeBr atEnd (Elem i tg f cs) = Some (Inr t') \<and> wellFormed t' \<and> nid t' = i
            \<and> tagName t' = tg \<and> set (sigs t') \<subseteq> set (sigs (Elem i tg f cs))
            \<and> (\<forall>s\<in>set (sigs (Elem i tg f cs)). fst (snd s) \<in> set inlineWrappers
                  \<or> (fst (snd s) = ''BR'' \<and> snd (snd s) \<noteq> Some ''true'')
                  \<or> s \<in> set (sigs t'))"
proof -
  let ?t = "Elem i tg f cs"
  obtain t' where r: "normalizeBr_each atEnd (querySelectorAll ''BR'' ?t) ?t = Some (Inr t')"
    "wellFormed t'" "nid t' = nid ?t" "tagName t' = tagName ?t" "set (sigs t') \<subseteq> set (sigs ?t)"
    and keep: "\<forall>s\<in>set (sigs ?t). fst (snd s) \<in> set inlineWrappers
                  \<or> (s \<in> sigOf ` set (querySelectorAll ''BR'' ?t) \<and> snd (snd s) \<noteq> Some ''true'')
                  \<or> s \<in> set (sigs t')"
    using normalizeBr_each_inv[OF brInv_querySelectorAll[OF assms], of atEnd] by blast
  have "fst (snd s) = ''BR''" if "s \<in> sigOf ` set (querySelectorAll ''BR'' ?t)" for s
    using that by (auto simp: querySelectorAll_def sigOf_def)
  then have "\<forall>s\<in>set (sigs ?t). fst (snd s) \<in> set inlineWrappers
                  \<or> (fst (snd s) = ''BR'' \<and> snd (snd s) \<noteq> Some ''true'')
                  \<or> s \<in> set (sigs t')"
    using keep by blast
  then show ?thesis
    using r by (intro exI[of _ t']) (simp add: normalizeBr_def)
qed

section \<open>What the reducer preserves\<close>

lemma idOf_remove [simp]: "idOf (remove x c) = idOf c"
  by (cases c) auto

lemma brLeaf_remove: "brLeaf t \<Longrightarrow> brLeaf (remove x t)"
  by (induction t) (auto simp: list_all_iff)

lemma root_remove [simp]: "tagName (remove x (Elem i tg f cs)) = tg" "nid (remove x (Elem i tg f cs)) = i"
  by simp_all

lemma set_sigs_remove: "set (sigs (remove x t)) \<subseteq> set (sigs t)"
proof (induction t)
  case (Elem i tg f cs)
  have "set (fsigs (map (remove x) (filter (\<lambda>c. idOf c \<noteq> Some x) cs))) \<subseteq> set (fsigs cs)"
    using Elem.IH by (fastforce simp: fsigs_def)
  then show ?case by auto
qed simp

lemma guarded_remove: "guarded X t \<Longrightarrow> guarded X (remove y t)"
proof (induction t)
  case (Elem i tg f cs)
  have sub: "set (fsigs (map (remove y) (filter (\<lambda>c. idOf c \<noteq> Some y) cs))) \<subseteq> set (fsigs cs)"
    using set_sigs_remove by (fastforce simp: fsigs_def)
  have "list_all (guarded X) (map (remove y) (filter (\<lambda>c. idOf c \<noteq> Some y) cs))"
    using Elem by (auto simp: list_all_iff)
  moreover have "i \<notin> X \<or> list_all (\<lambda>s. \<not> isFillerSig s)
           ((i, tg, f) # concat (map sigs (map (remove y) (filter (\<lambda>c. idOf c \<noteq> Some y) cs))))"
    using Elem.prems sub by (auto simp: list_all_iff fsigs_def)
  ultimately show ?case by simp
qed simp

lemma filler_kept:
  assumes "guarded X t" and "y \<in> X" and "isFillerSig s" and "s \<in> set (sigs t)"
  shows "s \<in> set (sigs (remove y t))"
  using assms(1,4)
proof (induction t)
  case (Elem i tg f cs)
  show ?case
  proof (cases "s = (i, tg, f)")
    case True
    then show ?thesis by simp
  next
    case False
    then obtain c where c: "c \<in> set cs" "s \<in> set (sigs c)"
      using Elem.prems(2) by (auto simp: fsigs_def)
    have gc: "guarded X c" using Elem.prems(1) c(1) by (auto simp: list_all_iff)
    have "idOf c \<noteq> Some y"
    proof
      assume "idOf c = Some y"
      then obtain tg' f' cs' where c': "c = Elem y tg' f' cs'" by (cases c) auto
      then have "list_all (\<lambda>s. \<not> isFillerSig s) (sigs c)"
        using gc assms(2) by (simp add: fsigs_def)
      then show False using c(2) assms(3) by (auto simp: list_all_iff)
    qed
    moreover have "s \<in> set (sigs (remove y c))"
      using Elem.IH[OF c(1) gc c(2)] .
    ultimately have "s \<in> set (fsigs (map (remove y) (filter (\<lambda>c. idOf c \<noteq> Some y) cs)))"
      using c(1) by (auto simp: fsigs_def)
    then show ?thesis by simp
  qed
qed simp

lemma removePairwise_keeps:
  assumes "set ps \<subseteq> X" and "guarded X t" and "isFillerSig s" and "s \<in> set (sigs t)"
  shows "s \<in> set (sigs (removePairwise ps t))"
  using assms
proof (induction ps t rule: removePairwise.induct)
  case (1 t)
  then show ?case by simp
next
  case (2 p t)
  then show ?case using filler_kept[of X t p s] by simp
next
  case (3 p q ps t)
  have "s \<in> set (sigs (remove p t))" "guarded X (remove p t)"
    using 3(3-6) filler_kept[of X t p s] guarded_remove by auto
  then show ?case using 3 by auto
qed

lemma removePairwise_brLeaf: "brLeaf t \<Longrightarrow> brLeaf (removePairwise ps t)"
  by (induction ps t rule: removePairwise.induct) (auto simp: brLeaf_remove)

lemma removePairwise_root:
  "removePairwise ps (Elem i tg f cs) = Elem i tg f (kids (removePairwise ps (Elem i tg f cs)))"
proof (induction ps "Elem i tg f cs" arbitrary: cs rule: removePairwise.induct)
  case 1
  then show ?case by simp
next
  case (2 p)
  then show ?case by simp
next
  case (3 p q ps)
  then show ?case by simp
qed

lemma subElems_inj:
  assumes "distinct (ids t)" "m \<in> set (subElems t)" "p \<in> set (subElems t)" "nid m = nid p"
  shows "m = p"
  using assms unfolding ids_def by (metis distinct_map inj_onD)

lemma subElems_isElement: "m \<in> set (subElems t) \<Longrightarrow> isElement m"
  by (induction t) auto

lemma brLeaf_sub: "brLeaf t \<Longrightarrow> m \<in> set (subElems t) \<Longrightarrow> brLeaf m"
  by (induction t) (auto simp: list_all_iff)

lemma sub_sigs: "m \<in> set (subElems t) \<Longrightarrow> set (sigs m) \<subseteq> set (sigs t)"
proof (induction t)
  case (Elem i tg f cs)
  then show ?case by (fastforce simp: fsigs_def)
qed simp

lemma guarded_intro:
  "(\<And>m. m \<in> set (subElems t) \<Longrightarrow> nid m \<in> X \<Longrightarrow> list_all (\<lambda>s. \<not> isFillerSig s) (sigs m))
   \<Longrightarrow> guarded X t"
proof (induction t)
  case (Elem i tg f cs)
  have "i \<notin> X \<or> list_all (\<lambda>s. \<not> isFillerSig s) ((i, tg, f) # concat (map sigs cs))"
    using Elem.prems[of "Elem i tg f cs"] by (auto simp: fsigs_def)
  moreover have "guarded X c" if "c \<in> set cs" for c
    using Elem.IH[OF that] Elem.prems that by auto
  ultimately show ?case by (simp add: list_all_iff)
qed simp

lemma fsigs_filter_isElement: "fsigs (filter isElement cs) = fsigs cs"
proof (induction cs)
  case (Cons c cs)
  then show ?case by (cases c) auto
qed simp

lemma spacer_sigs:
  assumes "brLeaf p" and "isSpacerCandidate p" and "tagName p = ''P''" and "isElement p"
  shows "list_all (\<lambda>s. \<not> isFillerSig s) (sigs p)"
proof -
  obtain i f cs where p: "p = Elem i ''P'' f cs"
    using assms(3,4) by (cases p) auto
  obtain c where c: "filter isElement cs = [c]" "tagName c = ''BR''" "ckeFiller c \<noteq> Some ''true''"
    using assms(2) unfolding p isSpacerCandidate_def childElementCount_def children_def
    by (auto split: list.splits)
  have "c \<in> set (filter isElement cs)"
    using c(1) by simp
  then have "c \<in> set cs" "isElement c"
    by simp_all
  then have "brLeaf c" using assms(1) unfolding p by (auto simp: list_all_iff)
  then have "sigs c = [sigOf c]"
    using brLeaf_sigs_leaf c(2) \<open>isElement c\<close> by blast
  then have "fsigs cs = [sigOf c]"
    using fsigs_filter_isElement[of cs] c(1) by simp
  then show ?thesis
    using c unfolding p by (simp add: isFillerSig_def sigOf_def)
qed

lemma getPossibleSpacerParagraphs_facts:
  assumes "p \<in> set (getPossibleSpacerParagraphs t)"
  shows "p \<in> set (descendants t)" "tagName p = ''P''" "isSpacerCandidate p"
  using assms by (auto simp: getPossibleSpacerParagraphs_def querySelectorAll_def)

lemma guarded_spacers:
  assumes "wellFormed (Elem i tg f cs)"
  shows "guarded (nid ` set (getPossibleSpacerParagraphs (Elem i tg f cs))) (Elem i tg f cs)"
proof (rule guarded_intro)
  let ?t = "Elem i tg f cs"
  fix m
  assume m: "m \<in> set (subElems ?t)" and "nid m \<in> nid ` set (getPossibleSpacerParagraphs ?t)"
  then obtain p where p: "p \<in> set (getPossibleSpacerParagraphs ?t)" "nid m = nid p"
    by auto
  have d: "distinct (ids ?t)" and bl: "brLeaf ?t"
    using assms by (auto simp: wellFormed_def)
  note pf = getPossibleSpacerParagraphs_facts[OF p(1)]
  have ps: "p \<in> set (subElems ?t)"
    using descendants_facts(1)[OF d pf(1)] .
  have "m = p" using subElems_inj[OF d m ps p(2)] .
  then show "list_all (\<lambda>s. \<not> isFillerSig s) (sigs m)"
    using spacer_sigs[OF brLeaf_sub[OF bl ps] pf(3) pf(2) subElems_isElement[OF ps]] by simp
qed

lemma distinct_spacers:
  assumes "distinct (ids (Elem i tg f cs))"
  shows "distinct (map nid (getPossibleSpacerParagraphs (Elem i tg f cs)))"
  using distinct_descendants[OF assms, of "\<lambda>n. tagName n = ''P'' \<and> isSpacerCandidate n"]
  by (simp add: getPossibleSpacerParagraphs_def querySelectorAll_def conj_commute)

lemma reduce_is_pairwise:
  assumes "distinct (ids (Elem i tg f cs))"
  shows "reduceSpacerParagraphs (getPossibleSpacerParagraphs (Elem i tg f cs)) t
           = removePairwise (map nid (getPossibleSpacerParagraphs (Elem i tg f cs))) t"
  using reduceFrom_pairwise[OF distinct_spacers[OF assms], of 0 t]
  by (cases "getPossibleSpacerParagraphs (Elem i tg f cs)") (simp_all add: reduceSpacerParagraphs_def)

lemma sigs_member: "s \<in> set (sigs t) \<Longrightarrow> \<exists>n\<in>set (subElems t). sigOf n = s"
  by (auto simp: sigs_def)

lemma normalizeTree_total:
  assumes "wellFormed (Elem i tg f cs)" and "tg \<notin> set inlineWrappers"
  shows "\<exists>t'. normalizeTree atEnd (Elem i tg f cs) = Some (Inr t')"
  using normalizeBr_inv[OF assms, of atEnd] by (auto simp: normalizeTree_def)

section \<open>Ancestors and descendants\<close>

lemma subElems_decompose: "n \<in> set (subElems t) \<Longrightarrow> \<exists>K. t = plug K n"
proof (induction t)
  case (Elem i tg f cs)
  show ?case
  proof (cases "n = Elem i tg f cs")
    case True
    then have "Elem i tg f cs = plug [] n" by simp
    then show ?thesis by blast
  next
    case False
    with Elem.prems obtain c where c: "c \<in> set cs" "n \<in> set (subElems c)"
      by auto
    then obtain K where K: "c = plug K n"
      using Elem.IH by blast
    from c(1) obtain ls rs where "cs = ls @ c # rs"
      by (auto dest: split_list)
    then have "Elem i tg f cs = plug (Frame i tg f ls rs # K) n"
      using K by simp
    then show ?thesis by blast
  qed
qed simp

lemma spine_nodes:
  "n \<in> set (spine K m) \<Longrightarrow> n = m \<or> (nid n \<in> set (cids K) \<and> isElement n \<and> kids n \<noteq> [])"
proof (induction K)
  case (Cons F K)
  then show ?case by (cases F) auto
qed simp

lemma isElement_idOf: "isElement n \<Longrightarrow> idOf n = Some (nid n)"
  by (cases n) auto

lemma kids_childNodes: "isElement n \<Longrightarrow> childNodes n = kids n"
  by (cases n) auto

lemma find_SomeD: "List.find P xs = Some x \<Longrightarrow> x \<in> set xs \<and> P x"
  by (induction xs) (auto split: if_splits)

lemma closest_facts:
  assumes d: "distinct (ids (plug K br))" and e: "isElement br" and tg: "tagName br = ''BR''"
    and c: "closest [''P'', ''TD''] (plug K br) (nid br) = Some c"
  shows "tagName c = ''P'' \<or> tagName c = ''TD''" "nid c \<noteq> nid br" "1 \<le> length (childNodes c)" "K \<noteq> []"
proof -
  have p: "pathTo (plug K br) (nid br) = spine K br"
    using pathTo_plug[OF d isElement_idOf[OF e]] .
  have cf: "c \<in> set (spine K br)" "tagName c \<in> set [''P'', ''TD'']"
    using find_SomeD[OF c[unfolded closest_def p]] by auto
  then show 1: "tagName c = ''P'' \<or> tagName c = ''TD''" by auto
  then have "c \<noteq> br" using tg by auto
  then have s: "nid c \<in> set (cids K)" "isElement c" "kids c \<noteq> []"
    using spine_nodes[OF cf(1)] by auto
  have "nid br \<in> set (ids br)" using e by (cases br) auto
  then show "nid c \<noteq> nid br"
    using d s(1) unfolding distinct_ids_plug by auto
  show "1 \<le> length (childNodes c)"
    using s(2,3) kids_childNodes[OF s(2)] by (cases "kids c") auto
  show "K \<noteq> []" using s(1) by auto
qed

lemma child_subElems: "p \<in> set (subElems t) \<Longrightarrow> c \<in> set (kids p) \<Longrightarrow> isElement c \<Longrightarrow> c \<in> set (subElems t)"
proof (induction t)
  case (Elem i tg f cs)
  show ?case
  proof (cases "p = Elem i tg f cs")
    case True
    then have "c \<in> set cs" using Elem.prems(2) by simp
    moreover have "c \<in> set (subElems c)" using Elem.prems(3) by (cases c) auto
    ultimately show ?thesis by auto
  next
    case False
    then obtain k where "k \<in> set cs" "p \<in> set (subElems k)"
      using Elem.prems(1) by auto
    then show ?thesis using Elem.IH Elem.prems(2,3) by auto
  qed
qed simp

lemma child_descendants:
  assumes "p \<in> set (descendants t)" "c \<in> set (kids p)" "isElement c"
  shows "c \<in> set (descendants t)"
proof -
  obtain k where k: "k \<in> set (kids t)" "p \<in> set (subElems k)"
    using assms(1) by (auto simp: descendants_def)
  then have "c \<in> set (subElems k)" using child_subElems assms(2,3) by blast
  then show ?thesis using k(1) by (auto simp: descendants_def)
qed

lemma spacer_has_br:
  assumes "p \<in> set (getPossibleSpacerParagraphs t)"
  shows "\<exists>c\<in>set (querySelectorAll ''BR'' t). c \<in> set (kids p)"
proof -
  note pf = getPossibleSpacerParagraphs_facts[OF assms]
  obtain c cs where c: "children p = c # cs" "tagName c = ''BR''"
    using pf(3) by (auto simp: isSpacerCandidate_def split: list.splits)
  then have "c \<in> set (filter isElement (kids p))" by (simp add: children_def)
  then have "c \<in> set (kids p)" "isElement c" by auto
  then show ?thesis
    using child_descendants[OF pf(1)] c(2) by (auto simp: querySelectorAll_def)
qed

lemma normalizeTree_no_markers:
  assumes "querySelectorAll ''BR'' t = []"
  shows "normalizeTree atEnd t = Some (Inr t)"
proof -
  have "getPossibleSpacerParagraphs t = []"
    using spacer_has_br[of _ t] assms by (cases "getPossibleSpacerParagraphs t") auto
  then show ?thesis
    using assms by (simp add: normalizeTree_def normalizeBr_def reduceSpacerParagraphs_def)
qed

section \<open>Adjacency and removal\<close>

lemma nextElementSibling_root: "nextElementSibling (Elem i tg f cs) i = None"
  by (simp add: nextElementSibling_def parentElement_root)

lemma nes_lift:
  assumes d: "distinct (ids (plug K m))" and y: "y \<in> set (ids m)" and ny: "idOf m \<noteq> Some y"
  shows "nextElementSibling (plug K m) y = nextElementSibling m y"
proof -
  obtain D tg f cs where m: "m = plug D (Elem y tg f cs)"
    using ids_decompose[OF y] by blast
  have "D \<noteq> []" using ny m by auto
  then obtain D' F where D: "D = D' @ [F]" by (cases D rule: rev_cases) auto
  obtain p tg' f' ls rs where F: "F = Frame p tg' f' ls rs" by (cases F)
  let ?P = "Elem p tg' f' (ls @ Elem y tg f cs # rs)"
  have m': "m = plug D' ?P" unfolding m D F by (simp add: plug_append)
  have km: "plug K m = plug (K @ D') ?P" unfolding m' by (simp add: plug_append)
  have d1: "distinct (ids (plug (K @ D') ?P))" using d km by simp
  have d2: "distinct (ids (plug D' ?P))"
    using d unfolding m' distinct_ids_plug[of K] by simp
  have iy: "idOf (Elem y tg f cs) = Some y" by simp
  show ?thesis
    unfolding km unfolding m'
    using nextElementSibling_focus[OF d1 iy] nextElementSibling_focus[OF d2 iy] by simp
qed

lemma distinct_remove: "distinct (ids t) \<Longrightarrow> distinct (ids (remove p t))"
  using remove_cases[of t p] by (auto simp: distinct_ids_plug)

lemma ids_remove_subset: "set (ids (remove p t)) \<subseteq> set (ids t)"
  using set_sigs_remove[of p t] unfolding ids_sigs by auto

lemma remove_gone:
  assumes "distinct (ids t)" and "p \<in> set (ids t)" and "p \<noteq> nid t"
  shows "p \<notin> set (ids (remove p t))"
proof -
  obtain K tg f cs where t: "t = plug K (Elem p tg f cs)"
    using ids_decompose[OF assms(2)] by blast
  have "K \<noteq> []" using assms(3) t by auto
  then obtain G F where K: "K = G @ [F]" by (cases K rule: rev_cases) auto
  obtain q tg' f' ls rs where F: "F = Frame q tg' f' ls rs" by (cases F)
  have t': "t = plug G (Elem q tg' f' (ls @ Elem p tg f cs # rs))"
    unfolding t K F by (simp add: plug_append)
  have r: "remove p t = plug G (Elem q tg' f' (ls @ rs))"
    unfolding t' using assms(1)[unfolded t'] by (intro remove_focus) auto
  show ?thesis
    unfolding r using assms(1)[unfolded t' distinct_ids_plug] by (auto simp: set_ids_plug)
qed

lemma map_filter_idOf_remove:
  "List.map_filter idOf (map (remove p) (filter (\<lambda>c. idOf c \<noteq> Some p) rs))
     = filter (\<lambda>j. j \<noteq> p) (List.map_filter idOf rs)"
proof (induction rs)
  case (Cons c rs)
  then show ?case by (cases c) (auto simp: List.map_filter_simps)
qed (simp add: List.map_filter_simps)

lemma head_filter_neq:
  "(case xs of [] \<Rightarrow> None | i # _ \<Rightarrow> Some i) \<noteq> Some p \<Longrightarrow>
   (case filter (\<lambda>j. j \<noteq> p) xs of [] \<Rightarrow> None | i # _ \<Rightarrow> Some i)
     = (case xs of [] \<Rightarrow> None | i # _ \<Rightarrow> Some i)"
  by (cases xs) auto

lemma nes_remove:
  assumes "distinct (ids t)" and "y \<noteq> p" and "nextElementSibling t y \<noteq> Some p"
    and "y \<in> set (ids (remove p t))"
  shows "nextElementSibling (remove p t) y = nextElementSibling t y"
  using assms
proof (induction t)
  case (Text s)
  then show ?case by simp
next
  case (Elem i tg f cs)
  let ?rm = "\<lambda>xs. map (remove p) (filter (\<lambda>c. idOf c \<noteq> Some p) xs)"
  show ?case
  proof (cases "y = i")
    case True
    then show ?thesis by (simp add: nextElementSibling_root)
  next
    case False
    then have "y \<in> set (fids (?rm cs))" using Elem.prems(4) by simp
    then obtain c where c: "c \<in> set cs" "idOf c \<noteq> Some p" "y \<in> set (ids (remove p c))"
      by (auto simp: in_fids_iff)
    obtain ls rs where cs: "cs = ls @ c # rs" using c(1) by (auto dest: split_list)
    have rm: "remove p (Elem i tg f cs) = Elem i tg f (?rm ls @ remove p c # ?rm rs)"
      using c(2) unfolding cs by simp
    have d: "distinct (ids (Elem i tg f (ls @ c # rs)))" using Elem.prems(1) cs by simp
    have d': "distinct (ids (Elem i tg f (?rm ls @ remove p c # ?rm rs)))"
      using distinct_remove[OF Elem.prems(1), of p] rm by simp
    have yc: "y \<in> set (ids c)" using c(3) ids_remove_subset by blast
    show ?thesis
    proof (cases "idOf c = Some y")
      case True
      have a: "nextElementSibling (Elem i tg f (ls @ c # rs)) y
                 = (case List.map_filter idOf rs of [] \<Rightarrow> None | j # _ \<Rightarrow> Some j)"
        using nextElementSibling_focus[of "[]" i tg f ls c rs y] d True by simp
      have b: "nextElementSibling (Elem i tg f (?rm ls @ remove p c # ?rm rs)) y
                 = (case List.map_filter idOf (?rm rs) of [] \<Rightarrow> None | j # _ \<Rightarrow> Some j)"
        using nextElementSibling_focus[of "[]" i tg f "?rm ls" "remove p c" "?rm rs" y] d' True
        by simp
      show ?thesis
        unfolding rm unfolding cs a b map_filter_idOf_remove
        using Elem.prems(3)[unfolded cs a] by (rule head_filter_neq)
    next
      case ny: False
      have a: "nextElementSibling (Elem i tg f (ls @ c # rs)) y = nextElementSibling c y"
        using nes_lift[of "[Frame i tg f ls rs]" c y] d yc ny by simp
      have ny': "idOf (remove p c) \<noteq> Some y" using ny by simp
      have b: "nextElementSibling (Elem i tg f (?rm ls @ remove p c # ?rm rs)) y
                 = nextElementSibling (remove p c) y"
        using nes_lift[of "[Frame i tg f (?rm ls) (?rm rs)]" "remove p c" y] d' c(3) ny' by simp
      have dc: "distinct (ids c)" using d by simp
      have "nextElementSibling (remove p c) y = nextElementSibling c y"
        using Elem.IH[OF c(1) dc Elem.prems(2) _ c(3)] Elem.prems(3)[unfolded cs a] by simp
      then show ?thesis unfolding rm unfolding cs a b .
    qed
  qed
qed

lemma ids_plug_split: "\<exists>A B. \<forall>m. ids (plug G m) = A @ ids m @ B"
proof (induction G)
  case Nil
  have "\<forall>m. ids (plug [] m) = [] @ ids m @ []" by simp
  then show ?case by blast
next
  case (Cons F G)
  obtain i tg f ls rs where F: "F = Frame i tg f ls rs" by (cases F)
  obtain A B where AB: "\<forall>m. ids (plug G m) = A @ ids m @ B" using Cons by blast
  have "\<forall>m. ids (plug (F # G) m) = (i # fids ls @ A) @ ids m @ (B @ fids rs)"
    unfolding F using AB by simp
  then show ?case by blast
qed

lemma map_filter_idOf_fids: "set (List.map_filter idOf rs) \<subseteq> set (fids rs)"
proof (induction rs)
  case (Cons c rs)
  then show ?case by (cases c) (auto simp: List.map_filter_simps)
qed (simp add: List.map_filter_simps)

lemma nes_in_tree:
  assumes "nextElementSibling t q = Some r"
  shows "q \<in> set (ids t)" "q \<noteq> nid t \<or> \<not> isElement t"
proof -
  have "parentElement t q \<noteq> None"
    using assms by (auto simp: nextElementSibling_def split: option.splits)
  then have "pathTo t q \<noteq> []"
    by (auto simp: parentElement_def)
  then show "q \<in> set (ids t)" using pathTo_absent by blast
  show "q \<noteq> nid t \<or> \<not> isElement t"
    using assms by (cases t) (auto simp: nextElementSibling_root)
qed

lemma nes_before:
  assumes "distinct (ids t)" and "nextElementSibling t q = Some r"
  shows "\<exists>A B. ids t = A @ q # B \<and> r \<in> set B"
proof -
  obtain K tg f cs where t: "t = plug K (Elem q tg f cs)"
    using ids_decompose[OF nes_in_tree(1)[OF assms(2)]] by blast
  have "K \<noteq> []"
    using assms(2) unfolding t by (auto simp: nextElementSibling_root)
  then obtain G F where K: "K = G @ [F]" by (cases K rule: rev_cases) auto
  obtain p tg' f' ls rs where F: "F = Frame p tg' f' ls rs" by (cases F)
  let ?Q = "Elem q tg f cs"
  have t': "t = plug G (Elem p tg' f' (ls @ ?Q # rs))"
    unfolding t K F by (simp add: plug_append)
  have "nextElementSibling t q = (case List.map_filter idOf rs of [] \<Rightarrow> None | j # _ \<Rightarrow> Some j)"
    unfolding t' using nextElementSibling_focus[of G p tg' f' ls ?Q rs q] assms(1)[unfolded t'] by simp
  then have "r \<in> set (List.map_filter idOf rs)"
    using assms(2) by (cases "List.map_filter idOf rs") auto
  then have r: "r \<in> set (fids rs)" using map_filter_idOf_fids by blast
  obtain A B where AB: "\<forall>m. ids (plug G m) = A @ ids m @ B"
    using ids_plug_split by blast
  have "ids t = (A @ p # fids ls) @ q # (fids cs @ fids rs @ B)"
    unfolding t' using AB by simp
  then show ?thesis using r by (metis Un_iff set_append)
qed

lemma nes_sorted:
  assumes "distinct (ids t)"
  shows "sorted_wrt (\<lambda>a b. nextElementSibling t b \<noteq> Some a) (ids t)"
  unfolding sorted_wrt_iff_nth_less
proof (intro allI impI notI)
  fix i j
  assume ij: "i < j" "j < length (ids t)" and n: "nextElementSibling t (ids t ! j) = Some (ids t ! i)"
  obtain A B where AB: "ids t = A @ (ids t ! j) # B" "ids t ! i \<in> set B"
    using nes_before[OF assms n] by blast
  obtain k where k: "k < length B" "B ! k = ids t ! i"
    using AB(2) by (auto simp: in_set_conv_nth)
  have lj: "ids t ! length A = ids t ! j"
    by (subst (1) AB(1)) simp
  have lA: "length A < length (ids t)" by (subst AB(1)) simp
  have "length A = j"
    using lj lA ij(2) assms by (simp add: nth_eq_iff_index_eq)
  moreover have li: "ids t ! (length A + 1 + k) = ids t ! i"
    using k by (subst (1) AB(1)) (simp add: nth_append)
  have lk: "length A + 1 + k < length (ids t)" using k(1) by (subst AB(1)) simp
  have "length A + 1 + k = i"
    using li lk ij assms by (simp add: nth_eq_iff_index_eq)
  ultimately show False using ij(1) by simp
qed

lemma spacers_sorted:
  assumes "distinct (ids (Elem i tg f cs))"
  shows "sorted_wrt (\<lambda>a b. nextElementSibling (Elem i tg f cs) b \<noteq> Some a)
           (map nid (getPossibleSpacerParagraphs (Elem i tg f cs)))"
proof -
  let ?t = "Elem i tg f cs"
  let ?R = "\<lambda>a b. nextElementSibling ?t b \<noteq> Some a"
  have "sorted_wrt ?R (ids ?t)" using nes_sorted[OF assms] .
  then have "sorted_wrt ?R (map nid (descendants ?t))"
    by (simp add: ids_def[abs_def] fids_def map_concat comp_def)
  then have "sorted_wrt (\<lambda>a b. ?R (nid a) (nid b)) (descendants ?t)"
    by (simp add: sorted_wrt_map)
  then have "sorted_wrt (\<lambda>a b. ?R (nid a) (nid b)) (getPossibleSpacerParagraphs ?t)"
    unfolding getPossibleSpacerParagraphs_def querySelectorAll_def
    by (intro sorted_wrt_filter)
  then show ?thesis by (simp add: sorted_wrt_map)
qed

lemma antichain_remove: "antichain X t \<Longrightarrow> antichain X (remove y t)"
proof (induction t)
  case (Elem i tg f cs)
  have sub: "set (fids (map (remove y) (filter (\<lambda>c. idOf c \<noteq> Some y) cs))) \<subseteq> set (fids cs)"
    using ids_remove_subset by (fastforce simp: fids_def)
  have "list_all (antichain X) (map (remove y) (filter (\<lambda>c. idOf c \<noteq> Some y) cs))"
    using Elem by (auto simp: list_all_iff)
  moreover have "i \<notin> X \<or> list_all (\<lambda>j. j \<notin> X)
           (concat (map ids (map (remove y) (filter (\<lambda>c. idOf c \<noteq> Some y) cs))))"
    using Elem.prems sub by (auto simp: list_all_iff fids_def)
  ultimately show ?case by simp
qed simp

lemma antichain_kept:
  assumes "antichain X t" and "p \<in> X" and "y \<in> X" and "y \<noteq> p" and "y \<in> set (ids t)"
  shows "y \<in> set (ids (remove p t))"
  using assms(1,5)
proof (induction t)
  case (Elem i tg f cs)
  show ?case
  proof (cases "y = i")
    case True
    then show ?thesis by simp
  next
    case False
    then obtain c where c: "c \<in> set cs" "y \<in> set (ids c)"
      using Elem.prems(2) by (auto simp: in_fids_iff)
    have ac: "antichain X c" using Elem.prems(1) c(1) by (auto simp: list_all_iff)
    have "idOf c \<noteq> Some p"
    proof
      assume "idOf c = Some p"
      then obtain tg' f' cs' where c': "c = Elem p tg' f' cs'" by (cases c) auto
      then have "list_all (\<lambda>j. j \<notin> X) (fids cs')"
        using ac assms(2) by (simp add: fids_def)
      moreover have "y \<in> set (fids cs')" using c(2) assms(4) unfolding c' by simp
      ultimately show False using assms(3) by (auto simp: list_all_iff)
    qed
    moreover have "y \<in> set (ids (remove p c))"
      using Elem.IH[OF c(1) ac c(2)] .
    ultimately have "y \<in> set (fids (map (remove p) (filter (\<lambda>c. idOf c \<noteq> Some p) cs)))"
      using c(1) by (auto simp: in_fids_iff)
    then show ?thesis by simp
  qed
qed simp

lemma antichain_intro:
  "(\<And>m. m \<in> set (subElems t) \<Longrightarrow> nid m \<in> X \<Longrightarrow> list_all (\<lambda>j. j \<notin> X) (fids (kids m)))
   \<Longrightarrow> antichain X t"
proof (induction t)
  case (Elem i tg f cs)
  have "i \<notin> X \<or> list_all (\<lambda>j. j \<notin> X) (concat (map ids cs))"
    using Elem.prems[of "Elem i tg f cs"] by (auto simp: fids_def)
  moreover have "antichain X c" if "c \<in> set cs" for c
    using Elem.IH[OF that] Elem.prems that by auto
  ultimately show ?case by (simp add: list_all_iff)
qed simp

lemma nid_remove [simp]: "nid (remove p t) = nid t"
  by (cases t) auto

lemma reduceInv_tail: "reduceInv X t (q # ys) \<Longrightarrow> reduceInv X t ys"
  by (auto simp: reduceInv_def)

lemma reduceInv_step:
  assumes "reduceInv X t (p # ys)"
  shows "reduceInv X (remove p t) ys"
    and "\<And>y. y \<in> set ys \<Longrightarrow> nextElementSibling (remove p t) y = nextElementSibling t y"
    and "p \<notin> set (ids (remove p t))"
    and "\<And>y. y \<in> X \<Longrightarrow> y \<noteq> p \<Longrightarrow> y \<in> set (ids t) \<Longrightarrow> y \<in> set (ids (remove p t))"
proof -
  have d: "distinct (ids t)" and X: "p \<in> X" "set ys \<subseteq> X" and ac: "antichain X t"
    and dp: "p \<notin> set ys" "distinct ys"
    and pm: "p \<in> set (ids t)" "p \<noteq> nid t"
    and ym: "\<forall>y\<in>set ys. y \<in> set (ids t) \<and> y \<noteq> nid t"
    and op: "\<forall>y\<in>set ys. nextElementSibling t y \<noteq> Some p"
    and os: "sorted_wrt (\<lambda>a b. nextElementSibling t b \<noteq> Some a) ys"
    using assms by (auto simp: reduceInv_def list_all_iff)
  show kept: "y \<in> set (ids (remove p t))" if "y \<in> X" "y \<noteq> p" "y \<in> set (ids t)" for y
    using antichain_kept[OF ac X(1) that] .
  show gone: "p \<notin> set (ids (remove p t))"
    using remove_gone[OF d pm] .
  show same: "nextElementSibling (remove p t) y = nextElementSibling t y" if y: "y \<in> set ys" for y
  proof -
    have "y \<noteq> p" using y dp(1) by auto
    moreover have "y \<in> set (ids (remove p t))"
      using kept[of y] y X(2) ym \<open>y \<noteq> p\<close> by auto
    ultimately show ?thesis
      using nes_remove[OF d _ _ _] op y by auto
  qed
  have "sorted_wrt (\<lambda>a b. nextElementSibling (remove p t) b \<noteq> Some a) ys"
    using os by (rule sorted_wrt_mono_rel[rotated]) (simp add: same)
  moreover have "\<forall>y\<in>set ys. y \<in> set (ids (remove p t)) \<and> y \<noteq> nid (remove p t)"
    using kept X(2) ym dp(1) by auto
  ultimately show "reduceInv X (remove p t) ys"
    using distinct_remove[OF d] antichain_remove[OF ac] X(2) dp(2)
    by (auto simp: reduceInv_def list_all_iff)
qed

lemma removePairwise_ids_subset: "set (ids (removePairwise ps t)) \<subseteq> set (ids t)"
proof (induction ps t rule: removePairwise.induct)
  case (3 p q ps t)
  then show ?case using ids_remove_subset[of p t] by (auto split: if_splits)
qed (auto simp: ids_remove_subset)

lemma removePairwise_survivors:
  assumes "reduceInv X t ps" and "y \<in> X" and "y \<in> set (ids t)"
  shows "y \<in> set (ids (removePairwise ps t))
           \<longleftrightarrow> y \<notin> set ps \<or> y \<in> set (survivors (nextElementSibling t) ps)"
  using assms
proof (induction ps t rule: removePairwise.induct)
  case (1 t)
  then show ?case by simp
next
  case (2 p t)
  note st = reduceInv_step[OF 2(1)]
  show ?case using st(3) st(4)[OF 2(2) _ 2(3)] by auto
next
  case (3 p q ps t)
  note st = reduceInv_step[OF 3(3)]
  let ?t1 = "remove p t"
  have dq: "p \<noteq> q" "p \<notin> set ps" "q \<notin> set ps"
    using 3(3) by (auto simp: reduceInv_def)
  have sv: "survivors (nextElementSibling ?t1) (q # ps) = survivors (nextElementSibling t) (q # ps)"
    "survivors (nextElementSibling ?t1) ps = survivors (nextElementSibling t) ps"
    using st(2) by (auto intro!: survivors_cong)
  show ?case
  proof (cases "y = p")
    case True
    have "p \<notin> set (ids (removePairwise (p # q # ps) t))"
      using st(3) removePairwise_ids_subset[of "q # ps" ?t1] removePairwise_ids_subset[of ps ?t1]
      by auto
    moreover have "p \<notin> set (survivors (nextElementSibling t) (p # q # ps))"
      using dq survivors_subset[of "nextElementSibling t" ps]
        survivors_subset[of "nextElementSibling t" "q # ps"] by auto
    ultimately show ?thesis using True by simp
  next
    case False
    then have y1: "y \<in> set (ids ?t1)" using st(4)[OF 3(4) _ 3(5)] by simp
    show ?thesis
    proof (cases "nextElementSibling t p = Some q")
      case adj: True
      have "y \<in> set (ids (removePairwise ps ?t1))
              \<longleftrightarrow> y \<notin> set ps \<or> y \<in> set (survivors (nextElementSibling ?t1) ps)"
        using 3(1)[OF adj reduceInv_tail[OF st(1)] 3(4) y1] .
      then show ?thesis using adj False dq sv(2) by auto
    next
      case nadj: False
      have "y \<in> set (ids (removePairwise (q # ps) ?t1))
              \<longleftrightarrow> y \<notin> set (q # ps) \<or> y \<in> set (survivors (nextElementSibling ?t1) (q # ps))"
        using 3(2)[OF nadj st(1) 3(4) y1] .
      then show ?thesis using nadj False sv(1) by auto
    qed
  qed
qed

lemma fids_filter_isElement: "fids (filter isElement cs) = fids cs"
proof (induction cs)
  case (Cons c cs)
  then show ?case by (cases c) auto
qed simp

lemma reduceInv_spacers:
  assumes wf: "wellFormed (Elem i tg f cs)"
  shows "reduceInv (nid ` set (getPossibleSpacerParagraphs (Elem i tg f cs))) (Elem i tg f cs)
           (map nid (getPossibleSpacerParagraphs (Elem i tg f cs)))"
proof -
  let ?t = "Elem i tg f cs"
  let ?ps = "getPossibleSpacerParagraphs ?t"
  let ?X = "nid ` set ?ps"
  have d: "distinct (ids ?t)" and bl: "brLeaf ?t"
    using wf by (auto simp: wellFormed_def)
  have sub: "p \<in> set (subElems ?t)" "nid p \<noteq> i" "tagName p = ''P''" "isSpacerCandidate p"
    if "p \<in> set ?ps" for p
    using getPossibleSpacerParagraphs_facts[OF that] descendants_facts[OF d] by auto
  have "antichain ?X ?t"
  proof (rule antichain_intro)
    fix m
    assume m: "m \<in> set (subElems ?t)" and "nid m \<in> ?X"
    then obtain p where p: "p \<in> set ?ps" "nid m = nid p" by auto
    have mp: "m = p" using subElems_inj[OF d m sub(1)[OF p(1)] p(2)] .
    obtain j g ks where pe: "p = Elem j ''P'' g ks"
      using sub(3)[OF p(1)] subElems_isElement[OF sub(1)[OF p(1)]] by (cases p) auto
    obtain c where c: "filter isElement ks = [c]" "tagName c = ''BR''"
      using sub(4)[OF p(1)] unfolding pe isSpacerCandidate_def childElementCount_def children_def
      by (auto split: list.splits)
    have "c \<in> set (filter isElement ks)" using c(1) by simp
    then have ck: "c \<in> set ks" "isElement c" by simp_all
    have cs: "c \<in> set (subElems ?t)"
      using child_subElems[OF sub(1)[OF p(1)], of c] ck unfolding pe by simp
    have "brLeaf c" using brLeaf_sub[OF bl cs] .
    then have idc: "ids c = [nid c]" using c(2) ck(2) by (cases c) auto
    have "fids ks = [nid c]"
      using fids_filter_isElement[of ks] c(1) idc by simp
    moreover have "nid c \<notin> ?X"
    proof
      assume "nid c \<in> ?X"
      then obtain p' where p': "p' \<in> set ?ps" "nid c = nid p'" by auto
      have "c = p'" using subElems_inj[OF d cs sub(1)[OF p'(1)] p'(2)] .
      then show False using c(2) sub(3)[OF p'(1)] by simp
    qed
    ultimately show "list_all (\<lambda>j. j \<notin> ?X) (fids (kids m))"
      unfolding mp pe by simp
  qed
  moreover have "\<forall>y\<in>set (map nid ?ps). y \<in> set (ids ?t) \<and> y \<noteq> nid ?t"
  proof
    fix y assume "y \<in> set (map nid ?ps)"
    then obtain p where p: "p \<in> set ?ps" "y = nid p" by auto
    have "nid p \<in> set (ids ?t)"
      using sub(1)[OF p(1)] unfolding ids_def by (metis imageI set_map)
    then show "y \<in> set (ids ?t) \<and> y \<noteq> nid ?t"
      using sub(2)[OF p(1)] p(2) by simp
  qed
  ultimately show ?thesis
    using d distinct_spacers[OF d] spacers_sorted[OF d]
    unfolding reduceInv_def list_all_iff
    by (auto simp del: antichain.simps ids_Elem)
qed

section \<open>Trees on which a pass does nothing\<close>







lemma brInv_step:
  assumes "brInv t (b # bs)"
  shows "\<exists>t1. unwrapBr (nid b) t = Some (Inr t1) \<and> wellFormed t1 \<and> nid t1 = nid t
            \<and> tagName t1 = tagName t \<and> set (sigs t1) \<subseteq> set (sigs t)
            \<and> (\<forall>s\<in>set (sigs t). fst (snd s) \<in> set inlineWrappers \<or> s \<in> set (sigs t1))
            \<and> sigOf b \<in> set (sigs t1)
            \<and> brInv (removeTrailingBr atEnd b t1) bs
            \<and> set (sigs (removeTrailingBr atEnd b t1)) \<subseteq> set (sigs t1)
            \<and> (\<forall>s\<in>set (sigs t1). s = sigOf b \<or> s \<in> set (sigs (removeTrailingBr atEnd b t1)))"
proof -
  have wf: "wellFormed t" and rt: "tagName t \<notin> set inlineWrappers"
    and db: "distinct (map nid (b # bs))"
    and b: "tagName b = ''BR''" "nid b \<noteq> nid t" "sigOf b \<in> set (sigs t)"
    and bs: "\<forall>c\<in>set bs. tagName c = ''BR'' \<and> nid c \<noteq> nid t \<and> sigOf c \<in> set (sigs t)"
    using assms by (auto simp: brInv_def list_all_iff)
  have "nid b \<in> set (ids t)"
    using b(3) unfolding ids_sigs sigOf_def by force
  then obtain t1 where u: "unwrapBr (nid b) t = Some (Inr t1)" and wf1: "wellFormed t1"
    and r1: "nid t1 = nid t" "tagName t1 = tagName t" and sub1: "set (sigs t1) \<subseteq> set (sigs t)"
    and keep1: "\<forall>s\<in>set (sigs t). fst (snd s) \<in> set inlineWrappers \<or> s \<in> set (sigs t1)"
    using unwrapBr_inv[OF wf rt _ b(2)] by blast
  have notw: "''BR'' \<notin> set inlineWrappers" by (simp add: inlineWrappers_def)
  have brs1: "sigOf c \<in> set (sigs t1)" if "c \<in> set (b # bs)" for c
  proof -
    have c: "tagName c = ''BR''" "sigOf c \<in> set (sigs t)"
      using that b bs by auto
    then have "fst (snd (sigOf c)) \<notin> set inlineWrappers"
      using notw by (simp add: sigOf_def)
    then show ?thesis using keep1 c(2) by blast
  qed
  define t2 where "t2 = removeTrailingBr atEnd b t1"
  have inv2: "wellFormed t2" "nid t2 = nid t1" "tagName t2 = tagName t1"
    "set (sigs t2) \<subseteq> set (sigs t1)"
    and keep2: "\<forall>s\<in>set (sigs t1). (s = sigOf b \<and> ckeFiller b \<noteq> Some ''true'') \<or> s \<in> set (sigs t2)"
    using removeTrailingBr_inv[OF wf1 b(1) brs1[of b], of atEnd] unfolding t2_def by auto
  have "brInv t2 bs"
  proof -
    have "sigOf c \<in> set (sigs t2)" if "c \<in> set bs" for c
    proof -
      have "nid b \<notin> nid ` set bs" using db by simp
      then have "nid c \<noteq> nid b" using that by (metis imageI)
      then have "sigOf c \<noteq> sigOf b" by (auto simp: sigOf_def)
      then show ?thesis using keep2 brs1[of c] that by auto
    qed
    then show ?thesis
      using inv2 r1 rt db bs by (auto simp: brInv_def list_all_iff)
  qed
  then show ?thesis
    using u wf1 r1 sub1 keep1 brs1[of b] inv2(4) keep2 unfolding t2_def
    by (intro exI[of _ t1]) auto
qed




lemma removePairwise_wellFormed: "wellFormed t \<Longrightarrow> wellFormed (removePairwise ps t)"
proof (induction ps t rule: removePairwise.induct)
  case (1 t)
  then show ?case by simp
next
  case (2 p t)
  then show ?case by (simp add: wellFormed_def distinct_remove brLeaf_remove)
next
  case (3 p q ps t)
  have "wellFormed (remove p t)"
    using 3(3) by (simp add: wellFormed_def distinct_remove brLeaf_remove)
  then show ?case using 3 by auto
qed


lemma normalizeTree_root:
  assumes "wellFormed (createDiv cs)"
  shows "\<exists>cs'. normalizeTree atEnd (createDiv cs) = Some (Inr (createDiv cs')) \<and> wellFormed (createDiv cs')"
proof -
  let ?t = "Elem 0 ''DIV'' None cs"
  have wf: "wellFormed ?t" using assms by (simp add: createDiv_def)
  have dv: "''DIV'' \<notin> set inlineWrappers" by (simp add: inlineWrappers_def)
  have d: "distinct (ids ?t)" using wf by (simp add: wellFormed_def)
  obtain t1 where n1: "normalizeBr atEnd ?t = Some (Inr t1)" and wf1: "wellFormed t1"
    and r1: "nid t1 = 0" "tagName t1 = ''DIV''" and sub1: "set (sigs t1) \<subseteq> set (sigs ?t)"
    and keep: "\<forall>s\<in>set (sigs ?t). fst (snd s) \<in> set inlineWrappers
                  \<or> (fst (snd s) = ''BR'' \<and> snd (snd s) \<noteq> Some ''true'')
                  \<or> s \<in> set (sigs t1)"
    using normalizeBr_inv[OF wf dv, of atEnd] by blast
  have "(0, ''DIV'', None) \<in> set (sigs t1)"
    using keep dv by auto
  then have "sigs t1 \<noteq> []" by auto
  then obtain i tg f1 cs1 where t1e: "t1 = Elem i tg f1 cs1" by (cases t1) auto
  then have t1': "t1 = Elem 0 ''DIV'' f1 cs1" using r1 by simp
  have "(0, ''DIV'', f1) \<in> set (sigs ?t)" using sub1 unfolding t1' by auto
  then have "f1 = None"
    using sig_unique[OF d, of "(0, ''DIV'', f1)" "(0, ''DIV'', None)"] by simp
  then have t1: "t1 = Elem 0 ''DIV'' None cs1" using t1' by simp
  let ?ps = "getPossibleSpacerParagraphs t1"
  define t' where "t' = reduceSpacerParagraphs ?ps t1"
  have d1: "distinct (ids t1)" using wf1 by (auto simp: wellFormed_def)
  have t'eq: "t' = removePairwise (map nid ?ps) t1"
    unfolding t'_def t1 using reduce_is_pairwise d1 unfolding t1 by blast
  obtain cs' where t': "t' = Elem 0 ''DIV'' None cs'"
    unfolding t'eq t1 using removePairwise_root by blast
  have "wellFormed t'"
    unfolding t'eq using removePairwise_wellFormed[OF wf1] .
  moreover have "normalizeTree atEnd (createDiv cs) = Some (Inr t')"
    using n1 by (simp add: normalizeTree_def createDiv_def t'_def)
  ultimately show ?thesis unfolding t' createDiv_def by blast
qed

section \<open>Parent links and document order\<close>

lemma flinks_simps [simp]:
  "flinks [] = []" "flinks (c # cs) = links c @ flinks cs" "flinks (xs @ ys) = flinks xs @ flinks ys"
  by (simp_all add: flinks_def)

lemma links_Elem: "links (Elem i tg f cs) = map (\<lambda>j. (i, tg, length cs, j)) (List.map_filter idOf cs) @ flinks cs"
  by (simp add: flinks_def)

lemma map_filter_idOf_append:
  "List.map_filter idOf (xs @ ys) = List.map_filter idOf xs @ List.map_filter idOf ys"
  by (simp add: List.map_filter_def)

lemma map_filter_idOf_Cons:
  "List.map_filter idOf (c # cs) = (case idOf c of None \<Rightarrow> [] | Some j \<Rightarrow> [j]) @ List.map_filter idOf cs"
  by (cases c) (simp_all add: List.map_filter_simps)

lemma rootOf_plug: "idOf (plug C m) = rootOf C (idOf m)"
  by (cases "(C, m)" rule: plug.cases) auto

lemma set_links_plug: "set (links (plug C m)) = set (clinks C (idOf m)) \<union> set (links m)"
proof (induction C m rule: plug.induct)
  case (1 m)
  then show ?case by simp
next
  case (2 i tg f ls rs C m)
  show ?case
    using 2
    by (simp only: plug.simps links_Elem clinks.simps map_filter_idOf_append map_filter_idOf_Cons
        rootOf_plug flinks_simps set_append set_map length_append list.size) auto
qed

lemma rootOf_append: "rootOf (C @ D) r = rootOf C (rootOf D r)"
  by (cases "(C, r)" rule: rootOf.cases) auto

lemma set_clinks_append: "set (clinks (C @ D) r) = set (clinks C (rootOf D r)) \<union> set (clinks D r)"
proof (induction C)
  case (Cons F C)
  then show ?case by (cases F) (auto simp: rootOf_append)
qed simp

lemma clinks_change:
  "l \<in> set (clinks C r) \<Longrightarrow> Some (snd (snd (snd l))) \<noteq> r \<Longrightarrow> l \<in> set (clinks C r')"
proof (induction C)
  case (Cons F C)
  obtain i tg f ls rs where F: "F = Frame i tg f ls rs" by (cases F)
  show ?case
  proof (cases C)
    case Nil
    then show ?thesis using Cons.prems unfolding F by (auto split: option.splits)
  next
    case (Cons G C')
    obtain j tg' f' ls' rs' where G: "G = Frame j tg' f' ls' rs'" by (cases G)
    have "rootOf C r = rootOf C r'" unfolding Cons G by simp
    then show ?thesis
      using Cons.prems Cons.IH unfolding F by auto
  qed
qed simp

lemma clinks_wrappers:
  "list_all wrapperFrame D \<Longrightarrow> l \<in> set (clinks D r) \<Longrightarrow>
     Some (snd (snd (snd l))) = r \<or> snd (snd (snd l)) \<in> set (cids D)"
proof (induction D)
  case (Cons F D)
  obtain i tg f ls rs where F: "F = Frame i tg f ls rs" by (cases F)
  have lr: "ls = []" "rs = []" using Cons.prems(1) unfolding F by auto
  show ?case
  proof (cases D)
    case Nil
    then show ?thesis using Cons.prems unfolding F lr by (auto simp: List.map_filter_simps split: option.splits)
  next
    case (Cons G D')
    obtain j tg' f' ls' rs' where G: "G = Frame j tg' f' ls' rs'" by (cases G)
    show ?thesis
      using Cons.prems Cons.IH unfolding F lr Cons G by (auto simp: List.map_filter_simps)
  qed
qed simp

lemma links_child: "l \<in> set (links t) \<Longrightarrow> snd (snd (snd l)) \<in> set (ids t) \<and> fst l \<in> set (ids t)"
proof (induction t)
  case (Elem i tg f cs)
  have a: "set (List.map_filter idOf cs) \<subseteq> set (fids cs)" by (rule map_filter_idOf_fids)
  show ?case
    using Elem a by (fastforce simp: in_fids_iff)
qed simp


lemma flinks_member: "l \<in> set (flinks cs) \<longleftrightarrow> (\<exists>c\<in>set cs. l \<in> set (links c))"
  by (auto simp: flinks_def)

lemma map_filter_idOf_member:
  "j \<in> set (List.map_filter idOf cs) \<longleftrightarrow> (\<exists>c\<in>set cs. idOf c = Some j)"
  by (induction cs) (auto simp: map_filter_idOf_Cons List.map_filter_simps split: option.splits)

lemma links_sub:
  "(p, tg, k, x) \<in> set (links t) \<Longrightarrow>
     \<exists>f ls X rs. Elem p tg f (ls @ X # rs) \<in> set (subElems t) \<and> idOf X = Some x
        \<and> k = length (ls @ X # rs)"
proof (induction t)
  case (Elem i tgi fi cs)
  from Elem.prems consider
      (own) "p = i" "tg = tgi" "k = length cs" "x \<in> set (List.map_filter idOf cs)"
    | (sub) c where "c \<in> set cs" "(p, tg, k, x) \<in> set (links c)"
    by (auto simp: links_Elem flinks_member)
  then show ?case
  proof cases
    case own
    then obtain X where X: "X \<in> set cs" "idOf X = Some x"
      by (auto simp: map_filter_idOf_member)
    then obtain ls rs where "cs = ls @ X # rs" by (auto dest: split_list)
    then show ?thesis using own X(2) by (intro exI[of _ fi] exI[of _ ls] exI[of _ X] exI[of _ rs]) simp
  next
    case sub
    then obtain f ls X rs where "Elem p tg f (ls @ X # rs) \<in> set (subElems c)" "idOf X = Some x"
      "k = length (ls @ X # rs)"
      using Elem.IH by blast
    then show ?thesis using sub(1) by (intro exI[of _ f] exI[of _ ls] exI[of _ X] exI[of _ rs]) auto
  qed
qed simp

lemma links_parent:
  assumes "distinct (ids t)" and "(p, tg, k, x) \<in> set (links t)"
  shows "\<exists>P. parentElement t x = Some P \<and> nid P = p \<and> tagName P = tg \<and> length (childNodes P) = k"
proof -
  obtain f ls X rs where P: "Elem p tg f (ls @ X # rs) \<in> set (subElems t)" and X: "idOf X = Some x"
    and k: "k = length (ls @ X # rs)"
    using links_sub[OF assms(2)] by blast
  obtain G where t: "t = plug G (Elem p tg f (ls @ X # rs))"
    using subElems_decompose[OF P] by blast
  have "parentElement t x = Some (Elem p tg f (ls @ X # rs))"
    unfolding t using assms(1)[unfolded t] X by (rule parentElement_focus)
  then show ?thesis using k by simp
qed

lemma parentElement_decompose:
  assumes "distinct (ids t)" and "parentElement t x = Some P"
  shows "\<exists>G p tg f ls X rs. t = plug G (Elem p tg f (ls @ X # rs)) \<and> idOf X = Some x
           \<and> P = Elem p tg f (ls @ X # rs)"
proof -
  have "pathTo t x \<noteq> []" using assms(2) by (auto simp: parentElement_def)
  then have "x \<in> set (ids t)" using pathTo_absent by blast
  then obtain K tgx fx csx where t: "t = plug K (Elem x tgx fx csx)"
    using ids_decompose by blast
  have "K \<noteq> []"
  proof
    assume "K = []"
    then show False using assms(2) t by (simp add: parentElement_root)
  qed
  then obtain G F where K: "K = G @ [F]" by (cases K rule: rev_cases) auto
  obtain p tg f ls rs where F: "F = Frame p tg f ls rs" by (cases F)
  have t': "t = plug G (Elem p tg f (ls @ Elem x tgx fx csx # rs))"
    unfolding t K F by (simp add: plug_append)
  have ix: "idOf (Elem x tgx fx csx) = Some x" by simp
  have "parentElement t x = Some (Elem p tg f (ls @ Elem x tgx fx csx # rs))"
    unfolding t' using parentElement_focus[OF assms(1)[unfolded t'] ix] .
  then show ?thesis using t' assms(2) by (metis idOf.simps(2) option.inject)
qed

lemma parent_links:
  assumes "distinct (ids t)" and "parentElement t x = Some P"
  shows "(nid P, tagName P, length (childNodes P), x) \<in> set (links t)"
proof -
  obtain G p tg f ls X rs where t: "t = plug G (Elem p tg f (ls @ X # rs))" and X: "idOf X = Some x"
    and P: "P = Elem p tg f (ls @ X # rs)"
    using parentElement_decompose[OF assms] by blast
  have "x \<in> set (List.map_filter idOf (ls @ X # rs))"
    using X by (auto simp: map_filter_idOf_member)
  then have "(p, tg, length (ls @ X # rs), x) \<in> set (links (Elem p tg f (ls @ X # rs)))"
    unfolding links_Elem by auto
  then show ?thesis
    unfolding t P set_links_plug by simp
qed

lemma unwrap_links:
  assumes d: "distinct (ids (plug (K @ D) n))" and n: "idOf n = Some y"
    and D: "list_all wrapperFrame D"
    and l: "l \<in> set (links (plug (K @ D) n))"
    and c: "snd (snd (snd l)) \<noteq> y" "snd (snd (snd l)) \<in> set (ids (plug K n))"
  shows "l \<in> set (links (plug K n))"
proof -
  have nD: "snd (snd (snd l)) \<notin> set (cids D)"
    using d c(2) unfolding distinct_ids_plug set_ids_plug cids_append by auto
  have r: "rootOf D (Some y) = Some y \<or> (\<exists>w\<in>set (cids D). rootOf D (Some y) = Some w)"
    by (cases "(D, Some y)" rule: rootOf.cases) auto
  from l consider "l \<in> set (clinks K (rootOf D (Some y)))" | "l \<in> set (clinks D (Some y))"
    | "l \<in> set (links n)"
    unfolding set_links_plug n set_clinks_append by auto
  then show ?thesis
  proof cases
    case 1
    have "Some (snd (snd (snd l))) \<noteq> rootOf D (Some y)"
      using r c(1) nD by auto
    then have "l \<in> set (clinks K (Some y))"
      using clinks_change[OF 1] by blast
    then show ?thesis unfolding set_links_plug n by simp
  next
    case 2
    then show ?thesis using clinks_wrappers[OF D 2] c(1) nD by auto
  next
    case 3
    then show ?thesis unfolding set_links_plug by simp
  qed
qed

lemma remove_links:
  assumes d: "distinct (ids t)" and l: "(p, tg, k, x) \<in> set (links t)"
    and x: "x \<in> set (ids (remove y t))"
  shows "(p, tg, k, x) \<in> set (links (remove y t))
       \<or> ((p, tg, k - 1, x) \<in> set (links (remove y t)) \<and> (p, tg, k, y) \<in> set (links t))"
proof -
  from remove_cases[OF d, of y] show ?thesis
  proof
    assume "remove y t = t"
    then show ?thesis using l by simp
  next
    assume "\<exists>G q tgq f ls n rs. t = plug G (Elem q tgq f (ls @ n # rs)) \<and> idOf n = Some y
             \<and> remove y t = plug G (Elem q tgq f (ls @ rs))"
    then obtain G q tgq f ls n rs where t: "t = plug G (Elem q tgq f (ls @ n # rs))"
      and n: "idOf n = Some y" and r: "remove y t = plug G (Elem q tgq f (ls @ rs))"
      by blast
    have xn: "x \<notin> set (ids n)"
      using x[unfolded r] d[unfolded t] unfolding distinct_ids_plug set_ids_plug by auto
    then have xy: "x \<noteq> y" using idOf_in_ids[OF n] by auto
    have yl: "y \<in> set (List.map_filter idOf (ls @ n # rs))"
      using n by (auto simp: map_filter_idOf_member)
    have T: "set (links t) = set (clinks G (Some q)) \<union> set (links (Elem q tgq f (ls @ n # rs)))"
      unfolding t set_links_plug by simp
    have R: "set (links (remove y t)) = set (clinks G (Some q)) \<union> set (links (Elem q tgq f (ls @ rs)))"
      unfolding r set_links_plug by simp
    from l consider (ctx) "(p, tg, k, x) \<in> set (clinks G (Some q))"
      | (own) "p = q" "tg = tgq" "k = length (ls @ n # rs)" "x \<in> set (List.map_filter idOf (ls @ n # rs))"
      | (sub) "(p, tg, k, x) \<in> set (flinks ls) \<union> set (flinks rs)"
      | (gone) "(p, tg, k, x) \<in> set (links n)"
      unfolding T links_Elem by auto
    then show ?thesis
    proof cases
      case ctx
      then show ?thesis unfolding R by simp
    next
      case own
      have "x \<in> set (List.map_filter idOf (ls @ rs))"
        using own(4) xy n by (auto simp: map_filter_idOf_member)
      then have "(q, tgq, length (ls @ rs), x) \<in> set (links (Elem q tgq f (ls @ rs)))"
        unfolding links_Elem by auto
      then have a: "(p, tg, k - 1, x) \<in> set (links (remove y t))"
        unfolding R own(1-3) by simp
      have "(q, tgq, length (ls @ n # rs), y) \<in> set (links (Elem q tgq f (ls @ n # rs)))"
        using yl unfolding links_Elem by auto
      then have b: "(p, tg, k, y) \<in> set (links t)"
        unfolding T own(1-3) by simp
      show ?thesis using a b by simp
    next
      case sub
      then show ?thesis unfolding R links_Elem by auto
    next
      case gone
      then show ?thesis using links_child[OF gone] xn by simp
    qed
  qed
qed


lemma removeTrailingBr_strippable':
  "removeTrailingBr atEnd b t = t \<or>
   (removeTrailingBr atEnd b t = remove (nid b) t \<and>
    (\<exists>c. closest [''P'', ''TD''] t (nid b) = Some c \<and> atEnd t (nid b) (nid c)))"
  by (auto simp: removeTrailingBr_def split: option.splits)

lemma subseq_filter_set:
  "subseq a l \<Longrightarrow> distinct l \<Longrightarrow> a = filter (\<lambda>x. x \<in> set a) l"
proof (induction rule: list_emb.induct)
  case (list_emb_Nil ys)
  then show ?case by simp
next
  case (list_emb_Cons xs ys y)
  have "y \<notin> set xs"
    using list_emb_Cons.hyps list_emb_Cons.prems by (auto dest: list_emb_set)
  then show ?case using list_emb_Cons by simp
next
  case (list_emb_Cons2 x y xs ys)
  have "filter (\<lambda>z. z \<in> set (x # xs)) ys = filter (\<lambda>z. z \<in> set xs) ys"
    using list_emb_Cons2.prems list_emb_Cons2.hyps(1) by (intro filter_cong) auto
  then show ?case using list_emb_Cons2 by simp
qed

lemma subseq_sub:
  assumes "distinct l" and "subseq a l" and "subseq b l" and "set a \<subseteq> set b"
  shows "subseq a b"
proof -
  have a: "a = filter (\<lambda>x. x \<in> set a) l" using subseq_filter_set[OF assms(2,1)] .
  have b: "b = filter (\<lambda>x. x \<in> set b) l" using subseq_filter_set[OF assms(3,1)] .
  have "filter (\<lambda>x. x \<in> set a) b = filter (\<lambda>x. x \<in> set a) (filter (\<lambda>x. x \<in> set b) l)"
    using b by simp
  also have "\<dots> = filter (\<lambda>x. x \<in> set a) l"
    using assms(4) by (auto simp: filter_filter intro!: filter_cong)
  finally have "filter (\<lambda>x. x \<in> set a) b = a" using a by simp
  then show ?thesis by (metis subseq_filter_left)
qed

lemma order_contra:
  assumes d: "distinct (A @ x # B)" and s: "subseq (y # zs) (A @ x # B)" and x: "x \<in> set zs"
    and y: "y \<in> set B"
  shows False
proof -
  define P where "P = (\<lambda>z. z \<in> set (y # zs))"
  have "y # zs = filter P (A @ x # B)" using subseq_filter_set[OF s d] unfolding P_def .
  moreover have "P x" using x by (simp add: P_def)
  ultimately have e: "y # zs = filter P A @ x # filter P B" by simp
  have xy: "x \<noteq> y" using d y by auto
  show False
  proof (cases "filter P A")
    case Nil
    then show ?thesis using e xy by simp
  next
    case (Cons a as)
    then have "y = a" using e by simp
    moreover have "a \<in> set (filter P A)" using Cons by simp
    ultimately have "y \<in> set A" by simp
    then show ?thesis using d y by auto
  qed
qed

lemma subseq_ids_plug:
  assumes "subseq (ids m) (ids m')"
  shows "subseq (ids (plug C m)) (ids (plug C m'))"
proof -
  obtain A B where AB: "\<forall>m. ids (plug C m) = A @ ids m @ B"
    using ids_plug_split by blast
  show ?thesis
    using assms by (simp add: AB list_emb_append_mono)
qed

lemma subseq_ids_hole: "subseq (ids m) (ids (plug C m))"
proof -
  obtain A B where AB: "\<forall>m. ids (plug C m) = A @ ids m @ B"
    using ids_plug_split by blast
  have "subseq ([] @ ids m @ []) (A @ ids m @ B)"
    by (intro list_emb_append_mono) auto
  then show ?thesis by (simp add: AB)
qed

lemma subseq_ids_remove:
  assumes "distinct (ids t)"
  shows "subseq (ids (remove y t)) (ids t)"
proof -
  from remove_cases[OF assms, of y] show ?thesis
  proof
    assume "remove y t = t"
    then show ?thesis by simp
  next
    assume "\<exists>G p tg f ls n rs. t = plug G (Elem p tg f (ls @ n # rs)) \<and> idOf n = Some y
             \<and> remove y t = plug G (Elem p tg f (ls @ rs))"
    then obtain G p tg f ls n rs where t: "t = plug G (Elem p tg f (ls @ n # rs))"
      and r: "remove y t = plug G (Elem p tg f (ls @ rs))"
      by blast
    have "subseq (fids ls @ [] @ fids rs) (fids ls @ ids n @ fids rs)"
      by (intro list_emb_append_mono) auto
    then have "subseq (ids (Elem p tg f (ls @ rs))) (ids (Elem p tg f (ls @ n # rs)))"
      by simp
    then have "subseq (ids (plug G (Elem p tg f (ls @ rs)))) (ids (plug G (Elem p tg f (ls @ n # rs))))"
      by (rule subseq_ids_plug)
    then show ?thesis using r t by simp
  qed
qed

lemma clinks_parent: "l \<in> set (clinks C r) \<Longrightarrow> fst l \<in> set (cids C)"
proof (induction C)
  case (Cons F C)
  obtain i tg f ls rs where F: "F = Frame i tg f ls rs" by (cases F)
  show ?case
    using Cons unfolding F by (auto simp: flinks_member in_fids_iff dest: links_child)
qed simp

lemma sibling_order:
  assumes d: "distinct (ids t)" and ly: "(p, tg, k, y) \<in> set (links t)"
    and lx: "(p, tg', k', x) \<in> set (links t)" and xy: "x \<noteq> y"
    and nes: "nextElementSibling t y = None"
  shows "\<exists>A B. ids t = A @ x # B \<and> y \<in> set B"
proof -
  obtain f ls Y rs where P: "Elem p tg f (ls @ Y # rs) \<in> set (subElems t)" and Y: "idOf Y = Some y"
    using links_sub[OF ly] by blast
  obtain G where t: "t = plug G (Elem p tg f (ls @ Y # rs))"
    using subElems_decompose[OF P] by blast
  note d' = d[unfolded t]
  have "nextElementSibling t y = (case List.map_filter idOf rs of [] \<Rightarrow> None | i # _ \<Rightarrow> Some i)"
    unfolding t using nextElementSibling_focus[OF d' Y] .
  then have rs: "List.map_filter idOf rs = []"
    using nes by (cases "List.map_filter idOf rs") auto
  note dd = d'[unfolded distinct_ids_plug]
  have pG: "p \<notin> set (cids G)" using dd by auto
  have pl: "p \<notin> set (fids ls)" "p \<notin> set (ids Y)" "p \<notin> set (fids rs)" using dd by auto
  from lx have "(p, tg', k', x) \<in> set (clinks G (Some p)) \<union> set (links (Elem p tg f (ls @ Y # rs)))"
    unfolding t set_links_plug by simp
  then have "(p, tg', k', x) \<in> set (links (Elem p tg f (ls @ Y # rs)))"
    using clinks_parent[of "(p, tg', k', x)" G "Some p"] pG by auto
  then consider (own) "x \<in> set (List.map_filter idOf (ls @ Y # rs))"
    | (sub) c where "c \<in> set (ls @ Y # rs)" "(p, tg', k', x) \<in> set (links c)"
    unfolding links_Elem by (auto simp: flinks_member)
  then have "x \<in> set (List.map_filter idOf (ls @ Y # rs))"
  proof cases
    case own
    then show ?thesis .
  next
    case sub
    have "p \<in> set (ids c)" using links_child[OF sub(2)] by simp
    then show ?thesis using sub(1) pl by (auto simp: in_fids_iff)
  qed
  then have "x \<in> set (List.map_filter idOf ls)"
    using rs xy Y by (auto simp: map_filter_idOf_append map_filter_idOf_Cons)
  then have "x \<in> set (fids ls)" using map_filter_idOf_fids by blast
  then obtain L1 L2 where L: "fids ls = L1 @ x # L2" by (auto dest: split_list)
  obtain A0 B0 where AB: "\<forall>m. ids (plug G m) = A0 @ ids m @ B0"
    using ids_plug_split by blast
  have "ids t = (A0 @ p # L1) @ x # (L2 @ ids Y @ fids rs @ B0)"
    unfolding t using AB L by simp
  moreover have "y \<in> set (L2 @ ids Y @ fids rs @ B0)"
    using idOf_in_ids[OF Y] by simp
  ultimately show ?thesis by blast
qed

lemma pathTo_subElems: "n \<in> set (pathTo t x) \<Longrightarrow> n \<in> set (subElems t)"
proof (induction t)
  case (Elem i tg f cs)
  show ?case
  proof (cases "i = x")
    case True
    then show ?thesis using Elem.prems by simp
  next
    case False
    show ?thesis
    proof (cases "concat (map (\<lambda>c. pathTo c x) cs)")
      case Nil
      then have "pathTo (Elem i tg f cs) x = []" using False by (simp del: concat_eq_Nil_conv)
      then show ?thesis using Elem.prems by simp
    next
      case (Cons q qs)
      then have "n = Elem i tg f cs \<or> n \<in> set (concat (map (\<lambda>c. pathTo c x) cs))"
        using Elem.prems False by auto
      then show ?thesis using Elem.IH by auto
    qed
  qed
qed simp

lemma unwrapBr_links:
  assumes wf: "wellFormed t" and rt: "tagName t \<notin> set inlineWrappers"
    and y: "y \<in> set (ids t)" and nr: "y \<noteq> nid t"
  shows "\<exists>t1. unwrapBr y t = Some (Inr t1) \<and> subseq (ids t1) (ids t)
            \<and> (\<forall>l\<in>set (links t). snd (snd (snd l)) \<noteq> y \<and> snd (snd (snd l)) \<in> set (ids t1)
                  \<longrightarrow> l \<in> set (links t1))
            \<and> (\<forall>p tg k. (p, tg, k, y) \<in> set (links t) \<and> (tg \<notin> set inlineWrappers \<or> k \<noteq> 1)
                  \<longrightarrow> t1 = t)"
proof -
  obtain K tgy fy csy where t: "t = plug K (Elem y tgy fy csy)"
    using ids_decompose[OF y] by blast
  let ?n = "Elem y tgy fy csy"
  have K: "K \<noteq> []" using nr t by auto
  have d: "distinct (ids (plug K ?n))"
    using wf t by (auto simp: wellFormed_def)
  have n: "idOf ?n = Some y" by simp
  obtain K' D where KD: "K = K' @ D" "K' \<noteq> []" "list_all wrapperFrame D"
    and u: "unwrapBr y (plug K ?n) = Some (Inr (plug K' ?n))"
    using unwrapBr_prefix[OF K d n rt[unfolded t]] by blast
  have s: "subseq (ids (plug K' ?n)) (ids t)"
    unfolding t KD plug_append using subseq_ids_hole[of ?n D] by (rule subseq_ids_plug)
  have l: "\<forall>l\<in>set (links t). snd (snd (snd l)) \<noteq> y \<and> snd (snd (snd l)) \<in> set (ids (plug K' ?n))
                  \<longrightarrow> l \<in> set (links (plug K' ?n))"
    using unwrap_links[OF d[unfolded KD] n KD(3)] unfolding t KD by blast
  have "plug K' ?n = t" if lk: "(p, tg, k, y) \<in> set (links t)"
    and c: "tg \<notin> set inlineWrappers \<or> k \<noteq> 1" for p tg k
  proof (cases D rule: rev_cases)
    case Nil
    then show ?thesis unfolding t KD by simp
  next
    case (snoc D' F)
    obtain q tgq fq ls rs where F: "F = Frame q tgq fq ls rs" by (cases F)
    have w: "tgq \<in> set inlineWrappers" "ls = []" "rs = []"
      using KD(3) unfolding snoc F by auto
    have t': "t = plug (K' @ D') (Elem q tgq fq ([] @ ?n # []))"
      unfolding t KD snoc F w by (simp add: plug_append)
    have "parentElement t y = Some (Elem q tgq fq ([] @ ?n # []))"
      unfolding t' using wf[unfolded t' wellFormed_def] by (intro parentElement_focus) auto
    moreover obtain P where "parentElement t y = Some P" "tagName P = tg" "length (childNodes P) = k"
      using links_parent[OF _ lk] wf by (auto simp: wellFormed_def)
    ultimately have "tg = tgq" "k = 1" by auto
    then show ?thesis using c w(1) by simp
  qed
  then show ?thesis
    using u s l unfolding t[symmetric] by (intro exI[of _ "plug K' ?n"]) blast
qed


lemma normalizeBr_each_parent:
  assumes "brInv t brs" and "subseq (map nid brs) (ids t)"
    and "(p, tg, k, x) \<in> set (links t)" and "(x, ''BR'', Some ''true'') \<in> set (sigs t)"
    and "x \<in> nid ` set brs \<Longrightarrow> tg \<notin> set inlineWrappers \<or> (k \<noteq> 1 \<and> S)"
    and S: "S \<Longrightarrow> \<forall>t x c. c \<in> set (pathTo t x) \<and> nid c \<noteq> x \<and> atEnd t x (nid c)
                \<longrightarrow> nextElementSibling t x = None"
  shows "\<exists>t' k'. normalizeBr_each atEnd brs t = Some (Inr t') \<and> (p, tg, k', x) \<in> set (links t')
            \<and> subseq (ids t') (ids t)"
  using assms(1-5)
proof (induction brs arbitrary: t k)
  case Nil
  then show ?case by auto
next
  case (Cons b bs)
  note inv = Cons.prems(1) and ord = Cons.prems(2) and lk = Cons.prems(3) and fx = Cons.prems(4)
    and cond = Cons.prems(5)
  have wf: "wellFormed t" and rt: "tagName t \<notin> set inlineWrappers"
    and db: "distinct (map nid (b # bs))"
    and b: "tagName b = ''BR''" "nid b \<noteq> nid t" "sigOf b \<in> set (sigs t)"
    using inv by (auto simp: brInv_def list_all_iff)
  have d: "distinct (ids t)" using wf by (simp add: wellFormed_def)
  have y: "nid b \<in> set (ids t)"
    using b(3) unfolding ids_sigs sigOf_def by force
  obtain t1 where u: "unwrapBr (nid b) t = Some (Inr t1)" and wf1: "wellFormed t1"
    and keep1: "\<forall>s\<in>set (sigs t). fst (snd s) \<in> set inlineWrappers \<or> s \<in> set (sigs t1)"
    and b1: "sigOf b \<in> set (sigs t1)"
    and inv2: "brInv (removeTrailingBr atEnd b t1) bs"
    and sub2: "set (sigs (removeTrailingBr atEnd b t1)) \<subseteq> set (sigs t1)"
    and keep2: "\<forall>s\<in>set (sigs t1). s = sigOf b \<or> s \<in> set (sigs (removeTrailingBr atEnd b t1))"
    using brInv_step[OF inv, of atEnd] by blast
  obtain t1' where u': "unwrapBr (nid b) t = Some (Inr t1')" and s1': "subseq (ids t1') (ids t)"
    and l1': "\<forall>l\<in>set (links t). snd (snd (snd l)) \<noteq> nid b \<and> snd (snd (snd l)) \<in> set (ids t1')
                  \<longrightarrow> l \<in> set (links t1')"
    and same': "\<forall>p tg k. (p, tg, k, nid b) \<in> set (links t) \<and> (tg \<notin> set inlineWrappers \<or> k \<noteq> 1)
                  \<longrightarrow> t1' = t"
    using unwrapBr_links[OF wf rt y b(2)] by blast
  have e1: "t1' = t1" using u u' by simp
  note s1 = s1'[unfolded e1] and l1 = l1'[unfolded e1] and same = same'[unfolded e1]
  define t2 where "t2 = removeTrailingBr atEnd b t1"
  have d1: "distinct (ids t1)" using wf1 by (simp add: wellFormed_def)
  have wf2: "wellFormed t2" using inv2 by (simp add: brInv_def t2_def)
  have d2: "distinct (ids t2)" using wf2 by (simp add: wellFormed_def)
  have notw: "''BR'' \<notin> set inlineWrappers" by (simp add: inlineWrappers_def)
  have fx1: "(x, ''BR'', Some ''true'') \<in> set (sigs t1)"
    using keep1 fx notw by auto
  then have x1: "x \<in> set (ids t1)" unfolding ids_sigs by force
  have run: "normalizeBr_each atEnd (b # bs) t = normalizeBr_each atEnd bs t2"
    using u by (simp add: t2_def)
  have in1: "set (map nid (b # bs)) \<subseteq> set (ids t1)"
  proof -
    have "nid c \<in> set (ids t1)" if "c \<in> set bs" for c
    proof -
      have "sigOf c \<in> set (sigs (removeTrailingBr atEnd b t1))"
        using inv2 that by (auto simp: brInv_def list_all_iff)
      then have "sigOf c \<in> set (sigs t1)" using sub2 by auto
      then show ?thesis unfolding ids_sigs sigOf_def by force
    qed
    moreover have "nid b \<in> set (ids t1)" using b1 unfolding ids_sigs sigOf_def by force
    ultimately show ?thesis by auto
  qed
  have ord1: "subseq (map nid (b # bs)) (ids t1)"
    using subseq_sub[OF d ord s1 in1] .
  have in2: "set (map nid bs) \<subseteq> set (ids t2)"
  proof -
    have "nid c \<in> set (ids t2)" if "c \<in> set bs" for c
    proof -
      have "sigOf c \<in> set (sigs t2)"
        using inv2 that by (auto simp: brInv_def list_all_iff t2_def)
      then show ?thesis unfolding ids_sigs sigOf_def by force
    qed
    then show ?thesis by auto
  qed
  have s2: "subseq (ids t2) (ids t1)"
    using removeTrailingBr_cases[of atEnd b t1] subseq_ids_remove[OF d1, of "nid b"]
    unfolding t2_def by auto
  have ord2: "subseq (map nid bs) (ids t2)"
  proof -
    have "subseq (map nid bs) (ids t1)"
      using ord1 by (simp add: subseq_Cons')
    then show ?thesis using subseq_sub[OF d1 _ s2 in2] by blast
  qed
  show ?case
  proof (cases "x = nid b")
    case True
    have nb: "x \<notin> nid ` set bs" using db True by auto
    have c: "tg \<notin> set inlineWrappers \<or> k \<noteq> 1" using cond True by auto
    have t1: "t1 = t" using same lk c True by blast
    have "sigOf b = (x, ''BR'', Some ''true'')"
      using sig_unique[OF d b(3) fx] True by (simp add: sigOf_def)
    then have "ckeFiller b = Some ''true''" by (simp add: sigOf_def)
    then have t2: "t2 = t" unfolding t2_def t1 by (simp add: removeTrailingBr_def)
    have "\<exists>t' k'. normalizeBr_each atEnd bs t = Some (Inr t') \<and> (p, tg, k', x) \<in> set (links t')
            \<and> subseq (ids t') (ids t)"
      using Cons.IH[OF inv2[folded t2_def, unfolded t2] ord2[unfolded t2] lk fx] nb by blast
    then show ?thesis unfolding run t2 .
  next
    case False
    have lk1: "(p, tg, k, x) \<in> set (links t1)"
      using l1 lk False x1 by auto
    have fx2: "(x, ''BR'', Some ''true'') \<in> set (sigs t2)"
      using keep2 fx1 False unfolding t2_def by (auto simp: sigOf_def)
    then have x2: "x \<in> set (ids t2)" unfolding ids_sigs by force
    have "\<exists>k2. (p, tg, k2, x) \<in> set (links t2)
            \<and> (x \<in> nid ` set bs \<longrightarrow> tg \<notin> set inlineWrappers \<or> (k2 \<noteq> 1 \<and> S))"
    proof -
      have c: "x \<in> nid ` set bs \<longrightarrow> tg \<notin> set inlineWrappers \<or> (k \<noteq> 1 \<and> S)"
        using cond by auto
      from removeTrailingBr_strippable'[of atEnd b t1] show ?thesis
      proof
        assume "removeTrailingBr atEnd b t1 = t1"
        then show ?thesis using lk1 c unfolding t2_def by auto
      next
        assume a: "removeTrailingBr atEnd b t1 = remove (nid b) t1 \<and>
          (\<exists>c. closest [''P'', ''TD''] t1 (nid b) = Some c \<and> atEnd t1 (nid b) (nid c))"
        then have r: "t2 = remove (nid b) t1" by (simp add: t2_def)
        obtain c where cl: "closest [''P'', ''TD''] t1 (nid b) = Some c" and ae: "atEnd t1 (nid b) (nid c)"
          using a by blast
        from remove_links[OF d1 lk1 x2[unfolded r]]
        show ?thesis
        proof
          assume "(p, tg, k, x) \<in> set (links (remove (nid b) t1))"
          then show ?thesis using c unfolding r by auto
        next
          assume alt: "(p, tg, k - 1, x) \<in> set (links (remove (nid b) t1))
                        \<and> (p, tg, k, nid b) \<in> set (links t1)"
          have "\<not> (x \<in> nid ` set bs \<and> S)"
          proof
            assume xs: "x \<in> nid ` set bs \<and> S"
            have cf: "c \<in> set (pathTo t1 (nid b))" "tagName c \<in> set [''P'', ''TD'']"
              using find_SomeD[OF cl[unfolded closest_def]] by auto
            have "sigOf c \<in> set (sigs t1)"
              using pathTo_subElems[OF cf(1)] unfolding sigs_def by (metis image_eqI set_map)
            then have "nid c \<noteq> nid b"
              using sig_unique[OF d1 _ b1, of "sigOf c"] cf(2) b(1) by (auto simp: sigOf_def)
            then have nes: "nextElementSibling t1 (nid b) = None"
              using S cf(1) ae xs by blast
            obtain A B where AB: "ids t1 = A @ x # B" "nid b \<in> set B"
              using sibling_order[OF d1 conjunct2[OF alt] lk1 False nes] by blast
            show False
              using order_contra[of A x B "nid b" "map nid bs"] d1 ord1 xs AB by auto
          qed
          moreover have "tg \<notin> set inlineWrappers \<or> (k \<noteq> 1 \<and> S)" if "x \<in> nid ` set bs"
            using c that by blast
          ultimately show ?thesis
            using alt unfolding r by (intro exI[of _ "k - 1"]) blast
        qed
      qed
    qed
    then obtain k2 where lk2: "(p, tg, k2, x) \<in> set (links t2)"
      and c2: "x \<in> nid ` set bs \<Longrightarrow> tg \<notin> set inlineWrappers \<or> (k2 \<noteq> 1 \<and> S)"
      by blast
    obtain t' k' where r: "normalizeBr_each atEnd bs t2 = Some (Inr t')"
      "(p, tg, k', x) \<in> set (links t')" "subseq (ids t') (ids t2)"
      using Cons.IH[OF inv2[folded t2_def] ord2 lk2 fx2 c2] by blast
    have "subseq (ids t') (ids t)"
      using r(3) s2 s1 by (meson subseq_order.trans)
    then show ?thesis using r(1,2) unfolding run by blast
  qed
qed


lemma removePairwise_links:
  assumes "distinct (ids t)" and "(p, tg, k, x) \<in> set (links t)"
    and "x \<in> set (ids (removePairwise ps t))"
  shows "\<exists>k'. (p, tg, k', x) \<in> set (links (removePairwise ps t))"
  using assms
proof (induction ps t arbitrary: k rule: removePairwise.induct)
  case (1 t)
  then show ?case by auto
next
  case (2 q t)
  then show ?case using remove_links[of t p tg k x q] by auto
next
  case (3 q r ps t)
  have x: "x \<in> set (ids (remove q t))"
    using 3(5) removePairwise_ids_subset[of ps "remove q t"] removePairwise_ids_subset[of "r # ps" "remove q t"]
    by (auto split: if_splits)
  obtain k1 where k1: "(p, tg, k1, x) \<in> set (links (remove q t))"
    using remove_links[OF 3(3,4) x] by blast
  note d = distinct_remove[OF 3(3), of q]
  show ?case
  proof (cases "nextElementSibling t q = Some r")
    case True
    then show ?thesis using 3(1)[OF True d k1] 3(5) by simp
  next
    case False
    then show ?thesis using 3(2)[OF False d k1] 3(5) by simp
  qed
qed

lemma removePairwise_subseq:
  "distinct (ids t) \<Longrightarrow> subseq (ids (removePairwise ps t)) (ids t)"
proof (induction ps t rule: removePairwise.induct)
  case (1 t)
  then show ?case by simp
next
  case (2 q t)
  then show ?case by (simp add: subseq_ids_remove)
next
  case (3 q r ps t)
  note d = distinct_remove[OF 3(3), of q] and s = subseq_ids_remove[OF 3(3), of q]
  show ?case
  proof (cases "nextElementSibling t q = Some r")
    case True
    have "subseq (ids (removePairwise ps (remove q t))) (ids t)"
      using 3(1)[OF True d] s by (meson subseq_order.trans)
    then show ?thesis using True by simp
  next
    case False
    have "subseq (ids (removePairwise (r # ps) (remove q t))) (ids t)"
      using 3(2)[OF False d] s by (meson subseq_order.trans)
    then show ?thesis using False by simp
  qed
qed

lemma querySelectorAll_subseq: "subseq (map nid (querySelectorAll tg (Elem i tgi f cs))) (ids (Elem i tgi f cs))"
proof -
  have "subseq (filter (\<lambda>n. tagName n = tg) (descendants (Elem i tgi f cs))) (descendants (Elem i tgi f cs))"
    by (rule subseq_filter_left)
  then have "subseq (map nid (querySelectorAll tg (Elem i tgi f cs))) (map nid (descendants (Elem i tgi f cs)))"
    unfolding querySelectorAll_def by (rule subseq_map)
  moreover have "ids (Elem i tgi f cs) = i # map nid (descendants (Elem i tgi f cs))"
    by (simp add: ids_def)
  ultimately show ?thesis by (simp del: ids_Elem descendants_Elem add: list_emb_Cons)
qed

lemma pathTo_last: "pathTo t x \<noteq> [] \<Longrightarrow> nid (last (pathTo t x)) = x"
proof (induction t)
  case (Elem i tg f cs)
  show ?case
  proof (cases "i = x")
    case True
    then show ?thesis by simp
  next
    case False
    have "concat xss \<noteq> [] \<Longrightarrow> \<exists>xs\<in>set xss. xs \<noteq> [] \<and> last (concat xss) = last xs" for xss :: "node list list"
    proof (induction xss)
      case (Cons a xss)
      show ?case
      proof (cases "concat xss = []")
        case True
        then have "concat (a # xss) = a" by simp
        then show ?thesis using Cons.prems by (intro bexI[of _ a]) auto
      next
        case False
        then obtain xs where "xs \<in> set xss" "xs \<noteq> []" "last (concat xss) = last xs"
          using Cons.IH by blast
        then show ?thesis using False by (intro bexI[of _ xs]) auto
      qed
    qed simp
    from this[of "map (\<lambda>c. pathTo c x) cs"]
    have l: "concat (map (\<lambda>c. pathTo c x) cs) \<noteq> [] \<Longrightarrow>
        \<exists>c\<in>set cs. pathTo c x \<noteq> [] \<and> last (concat (map (\<lambda>c. pathTo c x) cs)) = last (pathTo c x)"
      by auto
    show ?thesis
    proof (cases "concat (map (\<lambda>c. pathTo c x) cs)")
      case Nil
      then have "pathTo (Elem i tg f cs) x = []" using False by (simp del: concat_eq_Nil_conv)
      then show ?thesis using Elem.prems by simp
    next
      case (Cons q qs)
      then obtain c where c: "c \<in> set cs" "pathTo c x \<noteq> []" "last (q # qs) = last (pathTo c x)"
        using l by auto
      have "pathTo (Elem i tg f cs) x = Elem i tg f cs # q # qs"
        using False Cons by simp
      then have "last (pathTo (Elem i tg f cs) x) = last (pathTo c x)"
        using c(3) by simp
      then show ?thesis using Elem.IH[OF c(1,2)] by simp
    qed
  qed
qed simp

lemma isAtNodeEnd_sound:
  assumes "c \<in> set (pathTo t x)" and "nid c \<noteq> x" and "isAtNodeEnd t x (nid c)"
  shows "nextElementSibling t x = None"
proof -
  let ?p = "pathTo t x"
  have ne: "?p \<noteq> []" using assms(1) by auto
  have lx: "nid (last ?p) = x" using pathTo_last[OF ne] .
  let ?d = "dropWhile (\<lambda>n. nid n \<noteq> nid c) ?p"
  have dn: "?d \<noteq> []" using assms(1) by (auto simp: dropWhile_eq_Nil_conv)
  have hd: "nid (hd ?d) = nid c" using hd_dropWhile[OF dn] by simp
  have ld: "last ?d = last ?p"
    using dn by (metis last_appendR takeWhile_dropWhile_id)
  have "drop 1 ?d \<noteq> []"
  proof
    assume "drop 1 ?d = []"
    then have "?d = [hd ?d]" using dn by (cases ?d) auto
    then have "last ?d = hd ?d" by (metis last.simps)
    then show False using hd ld lx assms(2) by simp
  qed
  then have "last (drop 1 ?d) = last ?p"
    using ld by (cases ?d) auto
  moreover have "last (drop 1 ?d) \<in> set (drop 1 ?d)"
    using \<open>drop 1 ?d \<noteq> []\<close> by (rule last_in_set)
  ultimately have "nextSibling t (nid (last ?p)) = None"
    using assms(3) unfolding isAtNodeEnd_def list_all_iff by metis
  then have "nextSibling t x = None" using lx by simp
  then show ?thesis
    by (auto simp: nextSibling_def nextElementSibling_def List.map_filter_simps split: option.splits list.splits)
qed

lemma normalizeBr_each_subseq:
  assumes "brInv t brs"
  shows "\<exists>t'. normalizeBr_each atEnd brs t = Some (Inr t') \<and> subseq (ids t') (ids t)"
  using assms
proof (induction brs arbitrary: t)
  case Nil
  then show ?case by simp
next
  case (Cons b bs)
  have wf: "wellFormed t" and rt: "tagName t \<notin> set inlineWrappers"
    and b: "nid b \<noteq> nid t" "sigOf b \<in> set (sigs t)"
    using Cons.prems by (auto simp: brInv_def list_all_iff)
  have y: "nid b \<in> set (ids t)"
    using b(2) unfolding ids_sigs sigOf_def by force
  obtain t1 where u: "unwrapBr (nid b) t = Some (Inr t1)" and wf1: "wellFormed t1"
    and inv2: "brInv (removeTrailingBr atEnd b t1) bs"
    using brInv_step[OF Cons.prems, of atEnd] by blast
  have s1: "subseq (ids t1) (ids t)"
    using unwrapBr_links[OF wf rt y b(1)] u by auto
  have d1: "distinct (ids t1)" using wf1 by (simp add: wellFormed_def)
  have s2: "subseq (ids (removeTrailingBr atEnd b t1)) (ids t1)"
    using removeTrailingBr_cases[of atEnd b t1] subseq_ids_remove[OF d1, of "nid b"] by auto
  obtain t' where r: "normalizeBr_each atEnd bs (removeTrailingBr atEnd b t1) = Some (Inr t')"
    "subseq (ids t') (ids (removeTrailingBr atEnd b t1))"
    using Cons.IH[OF inv2] by blast
  have "subseq (ids t') (ids t)"
    using r(2) s2 s1 by (meson subseq_order.trans)
  then show ?case using u r(1) by simp
qed

section \<open>The working tree within the document\<close>

lemma treeOf_pair:
  "x \<notin> set (ids pg) \<Longrightarrow> treeOf [pg, t] x = (if x \<in> set (ids t) then Some t else None)"
  by (simp add: treeOf_def)

lemma parentElement_absent: "x \<notin> set (ids t) \<Longrightarrow> parentElement t x = None"
  by (simp add: parentElement_def pathTo_absent)

lemma pathToIn_pair: "x \<notin> set (ids pg) \<Longrightarrow> pathToIn [pg, t] x = pathTo t x"
  by (simp add: pathToIn_def treeOf_pair pathTo_absent)

lemma nodeIn_pair:
  "x \<notin> set (ids pg) \<Longrightarrow> nodeIn [pg, t] x = (case rev (pathTo t x) of [] \<Rightarrow> None | n # _ \<Rightarrow> Some n)"
  by (simp add: nodeIn_def pathToIn_pair)

lemma nodeIn_root: "i \<notin> set (ids pg) \<Longrightarrow> nodeIn [pg, Elem i tg f cs] i = Some (Elem i tg f cs)"
  by (simp add: nodeIn_pair)

lemma parentElementIn_pair: "x \<notin> set (ids pg) \<Longrightarrow> parentElementIn [pg, t] x = parentElement t x"
  by (simp add: parentElementIn_def treeOf_pair parentElement_absent)

lemma previousSiblingIn_pair: "x \<notin> set (ids pg) \<Longrightarrow> previousSiblingIn [pg, t] x = previousSibling t x"
  by (simp add: previousSiblingIn_def treeOf_pair previousSibling_def parentElement_absent)

lemma nextSiblingIn_pair: "x \<notin> set (ids pg) \<Longrightarrow> nextSiblingIn [pg, t] x = nextSibling t x"
  by (simp add: nextSiblingIn_def treeOf_pair nextSibling_def parentElement_absent)

lemma nextElementSiblingIn_pair:
  "x \<notin> set (ids pg) \<Longrightarrow> nextElementSiblingIn [pg, t] x = nextElementSibling t x"
  by (simp add: nextElementSiblingIn_def treeOf_pair nextElementSibling_def parentElement_absent)

lemma closestIn_pair: "x \<notin> set (ids pg) \<Longrightarrow> closestIn tags [pg, t] x = closest tags t x"
  by (simp add: closestIn_def treeOf_pair closest_def pathTo_absent)

lemma atEndIn_pair:
  "x \<notin> set (ids pg) \<Longrightarrow> x \<in> set (ids t) \<Longrightarrow> atEndIn atEnd [pg, t] x c = atEnd t x c"
  by (simp add: atEndIn_def treeOf_pair)

lemma removeIn_pair: "x \<notin> set (ids pg) \<Longrightarrow> removeIn x [pg, t] = [pg, remove x t]"
  by (simp add: removeIn_def remove_absent)

lemma insertAdjacentElement_afterendIn_pair:
  assumes "target \<notin> set (ids pg)" and "el \<notin> set (ids pg)"
  shows "insertAdjacentElement_afterendIn target el [pg, t]
           = map_sum id (\<lambda>t'. [pg, t']) (insertAdjacentElement_afterend target el t)"
  using assms
  by (simp add: insertAdjacentElement_afterendIn_def insertAdjacentElement_afterend_def
      parentElementIn_pair nodeIn_pair pathToIn_pair removeIn_pair insertAfter_absent
      split: option.splits list.splits)

lemma closest_in_tree: "closest tags t x = Some c \<Longrightarrow> x \<in> set (ids t)"
  by (cases "x \<in> set (ids t)") (auto simp: closest_def pathTo_absent)

lemma removeTrailingBrIn_pair:
  assumes "nid br \<notin> set (ids pg)"
  shows "removeTrailingBrIn atEnd br [pg, t] = [pg, removeTrailingBr atEnd br t]"
proof (cases "closest [''P'', ''TD''] t (nid br)")
  case None
  then show ?thesis
    using assms by (simp add: removeTrailingBrIn_def removeTrailingBr_def closestIn_pair)
next
  case (Some c)
  have "nid br \<in> set (ids t)" using closest_in_tree[OF Some] .
  then show ?thesis
    using assms Some
    by (simp add: removeTrailingBrIn_def removeTrailingBr_def closestIn_pair atEndIn_pair removeIn_pair)
qed

lemma parentElement_in_tree: "parentElement t x = Some p \<Longrightarrow> nid p \<in> set (ids t)"
proof -
  assume a: "parentElement t x = Some p"
  then have "p \<in> set (pathTo t x)"
    by (auto simp: parentElement_def split: list.splits)
  then have "p \<in> set (subElems t)" by (rule pathTo_subElems)
  then show ?thesis unfolding ids_def by (metis imageI set_map)
qed

lemma unwrapBrIn_unfold:
  assumes dj: "set (ids t) \<inter> set (ids pg) = {}" and br: "br \<notin> set (ids pg)"
  shows "unwrapBrIn br [pg, t] =
     (if previousSibling t br \<noteq> None \<or> nextSibling t br \<noteq> None then Some (Inr [pg, t])
      else (case parentElement t br of
              None \<Rightarrow> Some (Inl TypeError)
            | Some parent \<Rightarrow>
                if tagName parent \<in> set inlineWrappers
                then (case insertAdjacentElement_afterend (nid parent) br t of
                        Inl e \<Rightarrow> Some (Inl e)
                      | Inr t1 \<Rightarrow> unwrapBrIn br [pg, remove (nid parent) t1])
                else Some (Inr [pg, t])))"
proof (cases "parentElement t br")
  case None
  then show ?thesis
    using br by (subst unwrapBrIn.simps)
      (simp add: previousSiblingIn_pair nextSiblingIn_pair parentElementIn_pair)
next
  case (Some parent)
  have "nid parent \<notin> set (ids pg)"
    using parentElement_in_tree[OF Some] dj by auto
  then show ?thesis
    using br Some by (subst unwrapBrIn.simps)
      (simp add: previousSiblingIn_pair nextSiblingIn_pair parentElementIn_pair
        insertAdjacentElement_afterendIn_pair removeIn_pair split: sum.splits)
qed

lemma unwrap_step_tree:
  assumes d: "distinct (ids (plug C (Elem a ta fa (ls @ Elem w tw fw [n] # rs))))"
    and n: "idOf n = Some br"
  shows "previousSibling (plug C (Elem a ta fa (ls @ Elem w tw fw [n] # rs))) br = None"
    and "nextSibling (plug C (Elem a ta fa (ls @ Elem w tw fw [n] # rs))) br = None"
    and "parentElement (plug C (Elem a ta fa (ls @ Elem w tw fw [n] # rs))) br = Some (Elem w tw fw [n])"
    and "\<exists>t1. insertAdjacentElement_afterend w br (plug C (Elem a ta fa (ls @ Elem w tw fw [n] # rs))) = Inr t1
            \<and> remove w t1 = plug C (Elem a ta fa (ls @ n # rs))"
proof -
  let ?W = "Elem w tw fw [n]"
  let ?t = "plug C (Elem a ta fa (ls @ ?W # rs))"
  let ?C' = "C @ [Frame a ta fa ls rs]"
  have t': "?t = plug ?C' (Elem w tw fw ([] @ n # []))"
    by (simp add: plug_append)
  have d': "distinct (ids (plug ?C' (Elem w tw fw ([] @ n # []))))"
    using d t' by simp
  note fd = focus_distinct[OF d' n]
  show prev: "previousSibling ?t br = None"
    unfolding t' using previousSibling_focus[OF d' n] by simp
  show nxt: "nextSibling ?t br = None"
    unfolding t' using nextSibling_focus[OF d' n] by simp
  show par: "parentElement ?t br = Some ?W"
    unfolding t' using parentElement_focus[OF d' n] by simp
  have w: "idOf ?W = Some w" by simp
  have parw: "parentElement ?t w = Some (Elem a ta fa (ls @ ?W # rs))"
    using parentElement_focus[OF d w] .
  have pathbr: "pathTo ?t br = spine ?C' ?W @ [n]"
    unfolding t' using pathTo_focus[OF d' n] by simp
  have pathw: "pathTo ?t w = spine C (Elem a ta fa (ls @ ?W # rs)) @ [?W]"
    using pathTo_focus[OF d w] .
  have "set (map nid (spine C (Elem a ta fa (ls @ ?W # rs)))) \<subseteq> insert a (set (cids C))"
    by (rule nid_spine) simp
  then have notin: "br \<notin> set (map nid (pathTo ?t w))"
    using fd unfolding pathw by auto
  have rm: "remove br ?t = plug C (Elem a ta fa (ls @ Elem w tw fw [] # rs))"
    unfolding t' using remove_focus[OF d' n] by (simp add: plug_append)
  have d1: "distinct (ids (plug C (Elem a ta fa (ls @ Elem w tw fw [] # rs))))"
    using d by (auto simp: distinct_ids_plug)
  have w1: "idOf (Elem w tw fw []) = Some w" by simp
  have ins: "insertAfter w n (plug C (Elem a ta fa (ls @ Elem w tw fw [] # rs)))
               = plug C (Elem a ta fa (ls @ Elem w tw fw [] # n # rs))"
    using insertAfter_focus[OF d1 w1] .
  have d2: "distinct (ids (plug C (Elem a ta fa (ls @ Elem w tw fw [] # n # rs))))"
    using d by (auto simp: distinct_ids_plug)
  have rm2: "remove w (plug C (Elem a ta fa (ls @ Elem w tw fw [] # n # rs)))
               = plug C (Elem a ta fa (ls @ n # rs))"
    using remove_focus[OF d2 w1] .
  have iae: "insertAdjacentElement_afterend w br ?t = Inr (plug C (Elem a ta fa (ls @ Elem w tw fw [] # n # rs)))"
    using notin by (simp add: insertAdjacentElement_afterend_def parw pathbr rm ins)
  show "\<exists>t1. insertAdjacentElement_afterend w br ?t = Inr t1
            \<and> remove w t1 = plug C (Elem a ta fa (ls @ n # rs))"
    using iae rm2 by blast
qed

lemma unwrapBrIn_step:
  assumes d: "distinct (ids (plug C (Elem a ta fa (ls @ Elem w tw fw [n] # rs))))"
    and n: "idOf n = Some br" and tw: "tw \<in> set inlineWrappers"
    and dj: "set (ids (plug C (Elem a ta fa (ls @ Elem w tw fw [n] # rs)))) \<inter> set (ids pg) = {}"
  shows "unwrapBrIn br [pg, plug C (Elem a ta fa (ls @ Elem w tw fw [n] # rs))]
           = unwrapBrIn br [pg, plug C (Elem a ta fa (ls @ n # rs))]"
proof -
  note f = unwrap_step_tree[OF d n]
  obtain t1 where t1: "insertAdjacentElement_afterend w br (plug C (Elem a ta fa (ls @ Elem w tw fw [n] # rs))) = Inr t1"
    "remove w t1 = plug C (Elem a ta fa (ls @ n # rs))"
    using f(4) by blast
  have "br \<in> set (ids (plug C (Elem a ta fa (ls @ Elem w tw fw [n] # rs))))"
    using idOf_in_ids[OF n] by (simp add: set_ids_plug)
  then have br: "br \<notin> set (ids pg)" using dj by auto
  show ?thesis
    by (subst unwrapBrIn_unfold[OF dj br]) (simp add: f(1-3) tw t1)
qed

lemma unwrapBrIn_stop:
  assumes d: "distinct (ids (plug C (Elem p tg f (ls @ n # rs))))"
    and n: "idOf n = Some br" and stop: "ls \<noteq> [] \<or> rs \<noteq> [] \<or> tg \<notin> set inlineWrappers"
    and dj: "set (ids (plug C (Elem p tg f (ls @ n # rs)))) \<inter> set (ids pg) = {}"
  shows "unwrapBrIn br [pg, plug C (Elem p tg f (ls @ n # rs))]
           = Some (Inr [pg, plug C (Elem p tg f (ls @ n # rs))])"
proof -
  let ?t = "plug C (Elem p tg f (ls @ n # rs))"
  have prev: "previousSibling ?t br = (case rev ls of [] \<Rightarrow> None | c # _ \<Rightarrow> Some c)"
    using previousSibling_focus[OF d n] .
  have nxt: "nextSibling ?t br = (case rs of [] \<Rightarrow> None | c # _ \<Rightarrow> Some c)"
    using nextSibling_focus[OF d n] .
  have par: "parentElement ?t br = Some (Elem p tg f (ls @ n # rs))"
    using parentElement_focus[OF d n] .
  have "br \<in> set (ids ?t)"
    using idOf_in_ids[OF n] by (simp add: set_ids_plug)
  then have br: "br \<notin> set (ids pg)" using dj by auto
  show ?thesis
    using stop
    by (subst unwrapBrIn_unfold[OF dj br]) (auto simp: prev nxt par split: list.splits)
qed

lemma unwrapBrIn_prefix:
  assumes "K \<noteq> []" and "distinct (ids (plug K n))" and "idOf n = Some br"
    and "tagName (plug K n) \<notin> set inlineWrappers"
    and "set (ids (plug K n)) \<inter> set (ids pg) = {}"
  shows "\<exists>t1. unwrapBr br (plug K n) = Some (Inr t1) \<and> unwrapBrIn br [pg, plug K n] = Some (Inr [pg, t1])"
  using assms
proof (induction K rule: rev_induct)
  case Nil
  then show ?case by simp
next
  case (snoc F G)
  obtain p tg f ls rs where F: "F = Frame p tg f ls rs" by (cases F)
  have eq: "plug (G @ [F]) n = plug G (Elem p tg f (ls @ n # rs))"
    unfolding F by (simp add: plug_append)
  have d: "distinct (ids (plug G (Elem p tg f (ls @ n # rs))))"
    using snoc.prems(2) eq by simp
  have dj: "set (ids (plug G (Elem p tg f (ls @ n # rs)))) \<inter> set (ids pg) = {}"
    using snoc.prems(5) eq by simp
  show ?case
  proof (cases "ls \<noteq> [] \<or> rs \<noteq> [] \<or> tg \<notin> set inlineWrappers")
    case True
    have "unwrapBr br (plug (G @ [F]) n) = Some (Inr (plug (G @ [F]) n))"
      unfolding eq using d snoc.prems(3) True by (intro unwrapBr_stop)
    moreover have "unwrapBrIn br [pg, plug (G @ [F]) n] = Some (Inr [pg, plug (G @ [F]) n])"
      unfolding eq using d snoc.prems(3) True dj by (intro unwrapBrIn_stop)
    ultimately show ?thesis by blast
  next
    case False
    then have w: "wrapperFrame F" and lr: "ls = []" "rs = []" and tg: "tg \<in> set inlineWrappers"
      unfolding F by auto
    have G: "G \<noteq> []"
    proof
      assume "G = []"
      then have "tagName (plug (G @ [F]) n) = tg" unfolding F by simp
      then show False using snoc.prems(4) tg by simp
    qed
    obtain C F' where GF: "G = C @ [F']" using G by (cases G rule: rev_cases) auto
    obtain a ta fa ls' rs' where F': "F' = Frame a ta fa ls' rs'" by (cases F')
    have eq2: "plug (G @ [F]) n = plug C (Elem a ta fa (ls' @ Elem p tg f [n] # rs'))"
      unfolding GF F F' lr by (simp add: plug_append)
    have eq3: "plug G n = plug C (Elem a ta fa (ls' @ n # rs'))"
      unfolding GF F' by (simp add: plug_append)
    have st: "unwrapBr br (plug (G @ [F]) n) = unwrapBr br (plug G n)"
      using unwrapBr_wrappers[of G "[F]" n br] G w snoc.prems(2,3) by simp
    have stIn: "unwrapBrIn br [pg, plug (G @ [F]) n] = unwrapBrIn br [pg, plug G n]"
      unfolding eq2 eq3
      using snoc.prems(2,5)[unfolded eq2] snoc.prems(3) tg by (intro unwrapBrIn_step)
    have dG: "distinct (ids (plug G n))"
      using snoc.prems(2) unfolding distinct_ids_plug cids_append by auto
    have rt: "tagName (plug G n) \<notin> set inlineWrappers"
      using root_plug[OF G, of "[F]" n n] snoc.prems(4) by simp
    have djG: "set (ids (plug G n)) \<inter> set (ids pg) = {}"
      using snoc.prems(5) unfolding set_ids_plug cids_append by auto
    show ?thesis
      using snoc.IH[OF G dG snoc.prems(3) rt djG] st stIn by simp
  qed
qed

lemma unwrapBrIn_tree:
  assumes wf: "wellFormed t" and rt: "tagName t \<notin> set inlineWrappers"
    and x: "x \<in> set (ids t)" and nr: "x \<noteq> nid t"
    and dj: "set (ids t) \<inter> set (ids pg) = {}"
  shows "\<exists>t1. unwrapBr x t = Some (Inr t1) \<and> unwrapBrIn x [pg, t] = Some (Inr [pg, t1])"
proof -
  obtain K tg f cs where t: "t = plug K (Elem x tg f cs)"
    using ids_decompose[OF x] by blast
  have K: "K \<noteq> []" using nr t by auto
  have d: "distinct (ids (plug K (Elem x tg f cs)))"
    using wf t by (auto simp: wellFormed_def)
  show ?thesis
    unfolding t using unwrapBrIn_prefix[OF K d _ rt[unfolded t] dj[unfolded t]] by simp
qed

lemma normalizeBr_eachIn_tree:
  assumes "brInv t brs" and "set (ids t) \<inter> set (ids pg) = {}"
  shows "\<exists>t'. normalizeBr_each atEnd brs t = Some (Inr t')
            \<and> normalizeBr_eachIn atEnd brs [pg, t] = Some (Inr [pg, t'])"
  using assms
proof (induction brs arbitrary: t)
  case Nil
  then show ?case by simp
next
  case (Cons b bs)
  have wf: "wellFormed t" and rt: "tagName t \<notin> set inlineWrappers"
    and b: "nid b \<noteq> nid t" "sigOf b \<in> set (sigs t)"
    using Cons.prems(1) by (auto simp: brInv_def list_all_iff)
  have y: "nid b \<in> set (ids t)"
    using b(2) unfolding ids_sigs sigOf_def by force
  obtain t1 where u: "unwrapBr (nid b) t = Some (Inr t1)"
    and sub1: "set (sigs t1) \<subseteq> set (sigs t)"
    and inv2: "brInv (removeTrailingBr atEnd b t1) bs"
    and sub2: "set (sigs (removeTrailingBr atEnd b t1)) \<subseteq> set (sigs t1)"
    using brInv_step[OF Cons.prems(1), of atEnd] by blast
  have uIn: "unwrapBrIn (nid b) [pg, t] = Some (Inr [pg, t1])"
    using unwrapBrIn_tree[OF wf rt y b(1) Cons.prems(2)] u by auto
  have nb: "nid b \<notin> set (ids pg)" using y Cons.prems(2) by auto
  have "set (ids (removeTrailingBr atEnd b t1)) \<subseteq> set (ids t)"
    using sub1 sub2 unfolding ids_sigs by auto
  then have dj2: "set (ids (removeTrailingBr atEnd b t1)) \<inter> set (ids pg) = {}"
    using Cons.prems(2) by auto
  show ?case
    using Cons.IH[OF inv2 dj2] u uIn by (simp add: removeTrailingBrIn_pair[OF nb])
qed

lemma adjacentScanIn_pair:
  "candidate \<notin> set (ids pg) \<Longrightarrow>
     adjacentScanIn [pg, t] paragraphs candidate i len offset = adjacentScan t paragraphs candidate i len offset"
proof (induction t paragraphs candidate i len offset rule: adjacentScan.induct)
  case (1 t paragraphs candidate i len offset)
  then show ?case
    by (subst adjacentScanIn.simps, subst adjacentScan.simps) (simp add: nextElementSiblingIn_pair)
qed

lemma fold_removeIn_pair:
  "set xs \<inter> set (ids pg) = {} \<Longrightarrow> fold removeIn xs [pg, t] = [pg, fold remove xs t]"
  by (induction xs arbitrary: t) (auto simp: removeIn_pair)

lemma set_slice: "set (slice xs a b) \<subseteq> set xs"
  unfolding slice_def by (meson in_set_dropD in_set_takeD subsetI)

lemma reduceFromIn_pair:
  assumes "set paragraphs \<inter> set (ids pg) = {}" and "len \<le> length paragraphs"
  shows "reduceFromIn paragraphs len i [pg, t] = [pg, reduceFrom paragraphs len i t]"
  using assms
proof (induction paragraphs len i t rule: reduceFrom.induct)
  case (1 paragraphs len i t)
  show ?case
  proof (cases "i < len")
    case False
    then show ?thesis by (subst reduceFromIn.simps, subst reduceFrom.simps) simp
  next
    case True
    let ?c = "paragraphs ! i"
    let ?o = "adjacentScan t paragraphs ?c i len 0"
    have c: "?c \<notin> set (ids pg)" using True 1(3,4) by (metis disjoint_iff less_le_trans nth_mem)
    have sc: "adjacentScanIn [pg, t] paragraphs ?c i len 0 = ?o"
      using adjacentScanIn_pair[OF c] .
    have sl: "set (slice paragraphs i (i + numberOfParagraphsToRemove ?o)) \<inter> set (ids pg) = {}"
      using set_slice[of paragraphs i "i + numberOfParagraphsToRemove ?o"] 1(3) by auto
    show ?thesis
    proof (cases "?o = 0")
      case z: True
      have "reduceFromIn paragraphs len (i + 1) [pg, remove ?c t] = [pg, reduceFrom paragraphs len (i + 1) (remove ?c t)]"
        using 1(1)[OF True refl refl z 1(3,4)] .
      then show ?thesis
        using True z sc by (subst reduceFromIn.simps, subst reduceFrom.simps) (simp add: removeIn_pair[OF c] Let_def)
    next
      case nz: False
      have "reduceFromIn paragraphs len (i + ?o + 1) [pg, fold remove (slice paragraphs i (i + numberOfParagraphsToRemove ?o)) t]
              = [pg, reduceFrom paragraphs len (i + ?o + 1) (fold remove (slice paragraphs i (i + numberOfParagraphsToRemove ?o)) t)]"
        using 1(2)[OF True refl refl nz 1(3,4)] .
      then show ?thesis
        using True nz sc by (subst reduceFromIn.simps, subst reduceFrom.simps) (simp add: fold_removeIn_pair[OF sl] Let_def)
    qed
  qed
qed

lemma reduceSpacerParagraphsIn_pair:
  assumes "nid ` set paragraphs \<inter> set (ids pg) = {}"
  shows "reduceSpacerParagraphsIn paragraphs [pg, t] = [pg, reduceSpacerParagraphs paragraphs t]"
  using assms reduceFromIn_pair[of "map nid paragraphs" pg "length paragraphs" 0 t]
  by (simp add: reduceSpacerParagraphsIn_def reduceSpacerParagraphs_def)

lemma normalizeLegacyMessageIn_tree:
  assumes ta: "textareas w element = Some ta"
    and wfd: "wellFormed (createDiv (parse (value ta)))"
    and fresh: "set (ids (createDiv (parse (value ta)))) \<inter> set (ids (document w)) = {}"
  shows "\<exists>t. normalizeTree atEnd (createDiv (parse (value ta))) = Some (Inr t)
           \<and> normalizeLegacyMessageIn parse serialize atEnd element w
               = Some (Inr ((), w\<lparr>textareas := (textareas w)(element \<mapsto> ta\<lparr>value := serialize (kids t)\<rparr>)\<rparr>))"
proof -
  let ?cs = "parse (value ta)"
  let ?d = "Elem 0 ''DIV'' None ?cs"
  let ?pg = "document w"
  have wf: "wellFormed ?d" using wfd by (simp add: createDiv_def)
  have dj: "set (ids ?d) \<inter> set (ids ?pg) = {}" using fresh by (simp add: createDiv_def)
  have z: "0 \<notin> set (ids ?pg)" using dj by auto
  have dv: "''DIV'' \<notin> set inlineWrappers" by (simp add: inlineWrappers_def)
  have inv: "brInv ?d (querySelectorAll ''BR'' ?d)" using brInv_querySelectorAll[OF wf dv] .
  obtain t1 where n1: "normalizeBr_each atEnd (querySelectorAll ''BR'' ?d) ?d = Some (Inr t1)"
    and n1In: "normalizeBr_eachIn atEnd (querySelectorAll ''BR'' ?d) [?pg, ?d] = Some (Inr [?pg, t1])"
    using normalizeBr_eachIn_tree[OF inv dj, of atEnd] by blast
  obtain t1' where "normalizeBr atEnd ?d = Some (Inr t1')" and wf1': "wellFormed t1'"
    and r1': "nid t1' = 0" "tagName t1' = ''DIV''" and sub1': "set (sigs t1') \<subseteq> set (sigs ?d)"
    and keep': "\<forall>s\<in>set (sigs ?d). fst (snd s) \<in> set inlineWrappers
                  \<or> (fst (snd s) = ''BR'' \<and> snd (snd s) \<noteq> Some ''true'')
                  \<or> s \<in> set (sigs t1')"
    using normalizeBr_inv[OF wf dv, of atEnd] by blast
  then have e: "t1' = t1" using n1 by (simp add: normalizeBr_def)
  note wf1 = wf1'[unfolded e] and r1 = r1'[unfolded e] and sub1 = sub1'[unfolded e]
    and keep = keep'[unfolded e]
  have "(0, ''DIV'', None) \<in> set (sigs t1)" using keep dv by auto
  then have "sigs t1 \<noteq> []" by auto
  then obtain i tg f1 cs1 where "t1 = Elem i tg f1 cs1" by (cases t1) auto
  then have t1: "t1 = Elem 0 ''DIV'' f1 cs1" using r1 by simp
  have d1: "distinct (ids t1)" using wf1 by (simp add: wellFormed_def)
  have ids1: "set (ids t1) \<subseteq> set (ids ?d)" using sub1 unfolding ids_sigs by auto
  let ?ps = "getPossibleSpacerParagraphs t1"
  define t' where "t' = reduceSpacerParagraphs ?ps t1"
  have psd: "nid ` set ?ps \<inter> set (ids ?pg) = {}"
  proof -
    have "nid p \<in> set (ids t1)" if "p \<in> set ?ps" for p
    proof -
      have "p \<in> set (descendants t1)" using getPossibleSpacerParagraphs_facts(1)[OF that] .
      then have "p \<in> set (subElems t1)" using descendants_facts(1)[OF d1[unfolded t1]] unfolding t1 by blast
      then show ?thesis unfolding ids_def by (metis imageI set_map)
    qed
    then have "nid ` set ?ps \<subseteq> set (ids ?d)" using ids1 by blast
    then show ?thesis using dj by blast
  qed
  have red: "reduceSpacerParagraphsIn ?ps [?pg, t1] = [?pg, t']"
    unfolding t'_def using reduceSpacerParagraphsIn_pair[OF psd] .
  have t'eq: "t' = removePairwise (map nid ?ps) t1"
    unfolding t'_def t1 using reduce_is_pairwise d1 unfolding t1 by blast
  obtain cs' where t': "t' = Elem 0 ''DIV'' f1 cs'"
    unfolding t'eq t1 using removePairwise_root by blast
  have nt: "normalizeTree atEnd (createDiv ?cs) = Some (Inr t')"
    using n1 by (simp add: normalizeTree_def normalizeBr_def createDiv_def t'_def)
  have nd: "nodeIn [?pg, ?d] 0 = Some ?d" using nodeIn_root[OF z] .
  have nd1: "nodeIn [?pg, t1] 0 = Some t1" unfolding t1 using nodeIn_root[OF z] .
  have nd': "nodeIn [?pg, t'] 0 = Some t'" unfolding t' using nodeIn_root[OF z] .
  have nbIn: "normalizeBrIn atEnd 0 [?pg, ?d] = Some (Inr [?pg, t1])"
    using n1In by (simp add: normalizeBrIn_def nd)
  have gp: "getPossibleSpacerParagraphsIn 0 [?pg, t1] = ?ps"
    by (simp add: getPossibleSpacerParagraphsIn_def nd1)
  have ih: "innerHTMLIn serialize 0 [?pg, t'] = serialize (kids t')"
    by (simp add: innerHTMLIn_def nd')
  have "normalizeLegacyMessageIn parse serialize atEnd element w
          = Some (Inr ((), w\<lparr>textareas := (textareas w)(element \<mapsto> ta\<lparr>value := serialize (kids t')\<rparr>)\<rparr>))"
    using ta by (simp add: normalizeLegacyMessageIn_def createDiv_def nbIn gp red ih)
  then show ?thesis using nt by blast
qed

section \<open>Claims about the reducer\<close>

text \<open>
  C10. For every list of pairwise-distinct paragraph elements the adjacency counter
  \<^verbatim>\<open>offset\<close> of \<^verbatim>\<open>reduceSpacerParagraphs\<close> never exceeds 1, whatever the tree and the
  index: \<^verbatim>\<open>candidate\<close> stays \<^verbatim>\<open>paragraphs[i]\<close>, so the second comparison is against a
  different element than the first. The branch for an even non-zero offset is therefore
  never taken, and the reducer is the pairwise removal: the first member of each pair of
  adjacent entries is removed (and the second skipped), an entry without an adjacent
  successor is removed.
\<close>

theorem reduceSpacerParagraphs_offset_pairwise:
  assumes "distinct (map nid paragraphs)"
  shows "(\<forall>t i. i < length paragraphs \<longrightarrow>
            adjacentScan t (map nid paragraphs) (map nid paragraphs ! i) i (length paragraphs) 0 \<le> 1)
       \<and> (\<forall>t. reduceSpacerParagraphs paragraphs t = removePairwise (map nid paragraphs) t)"
proof (intro conjI allI impI)
  fix t i
  assume "i < length paragraphs"
  then show "adjacentScan t (map nid paragraphs) (map nid paragraphs ! i) i (length paragraphs) 0 \<le> 1"
    using adjacentScan_distinct[OF assms, of i t] by (simp split: if_splits)
next
  fix t
  show "reduceSpacerParagraphs paragraphs t = removePairwise (map nid paragraphs) t"
    using reduceFrom_pairwise[OF assms, of 0 t]
    by (cases paragraphs) (simp_all add: reduceSpacerParagraphs_def)
qed

theorem reduceSpacerParagraphs_offset_pairwise_witness:
  "distinct (map nid [spacer 1 2, spacer 3 4, spacer 5 6])
   \<and> adjacentScan (createDiv [spacer 1 2, spacer 3 4, spacer 5 6]) [1, 3, 5] 1 0 3 0 \<le> 1
   \<and> reduceSpacerParagraphs [spacer 1 2, spacer 3 4, spacer 5 6]
        (createDiv [spacer 1 2, spacer 3 4, spacer 5 6])
      = removePairwise [1, 3, 5] (createDiv [spacer 1 2, spacer 3 4, spacer 5 6])"
proof -
  have d: "distinct (map nid [spacer 1 2, spacer 3 4, spacer 5 6])"
    by (simp add: spacer_def)
  note w = reduceSpacerParagraphs_offset_pairwise[OF d]
  have m: "map nid [spacer 1 2, spacer 3 4, spacer 5 6] = [1, 3, 5]"
    by (simp add: spacer_def)
  have "adjacentScan (createDiv [spacer 1 2, spacer 3 4, spacer 5 6]) [1, 3, 5] ([1, 3, 5] ! 0) 0 3 0 \<le> 1"
    using w[THEN conjunct1, rule_format, of 0 "createDiv [spacer 1 2, spacer 3 4, spacer 5 6]"]
    unfolding m by (simp add: numeral_3_eq_3)
  moreover have "reduceSpacerParagraphs [spacer 1 2, spacer 3 4, spacer 5 6]
        (createDiv [spacer 1 2, spacer 3 4, spacer 5 6])
      = removePairwise [1, 3, 5] (createDiv [spacer 1 2, spacer 3 4, spacer 5 6])"
    using w[THEN conjunct2, rule_format, of "createDiv [spacer 1 2, spacer 3 4, spacer 5 6]"]
    unfolding m .
  ultimately show ?thesis using d by simp
qed

text \<open>
  C2. The claim: of a maximal run of \<open>n\<close> adjacent spacer paragraphs the trailing
  \<open>n div 2\<close> survive and the leading ones are deleted. On a run of three the code
  deletes the first and the third paragraph and keeps the second one.
\<close>

theorem reduceSpacerParagraphs_run_of_three:
  "reduceSpacerParagraphs
     (getPossibleSpacerParagraphs (createDiv [spacer 1 2, spacer 3 4, spacer 5 6]))
     (createDiv [spacer 1 2, spacer 3 4, spacer 5 6])
   = createDiv [spacer 3 4]"
  by code_simp

text \<open>
  C3. The spacer paragraphs of a tree, in the order of the scan, fall into maximal runs
  by adjacency: in a run each member is the next element sibling of the one before, the
  entry before the run is not adjacent to its first member and its last member is not
  adjacent to the entry after the run. Of every run of length \<open>n\<close> exactly \<open>n div 2\<close>
  paragraphs are left in the tree by \<^verbatim>\<open>reduceSpacerParagraphs\<close> (none of a run of 1, one of
  a run of 2 or 3, two of a run of 4 or 5); they are the second, the fourth, \<dots> member
  of the run. Two spacer paragraphs with another element between them are two runs of
  length 1, and both are removed.
\<close>

theorem reduceSpacerParagraphs_halves_runs:
  assumes wf: "wellFormed (Elem i tg f cs)"
    and ps: "getPossibleSpacerParagraphs (Elem i tg f cs) = pre @ run @ post"
    and chain: "\<forall>k. k + 1 < length run \<longrightarrow>
                  nextElementSibling (Elem i tg f cs) (nid (run ! k)) = Some (nid (run ! (k + 1)))"
    and left: "pre \<noteq> [] \<longrightarrow>
                 nextElementSibling (Elem i tg f cs) (nid (last pre)) \<noteq> Some (nid (hd run))"
    and right: "post \<noteq> [] \<longrightarrow>
                  nextElementSibling (Elem i tg f cs) (nid (last run)) \<noteq> Some (nid (hd post))"
  shows "filter (\<lambda>p. nid p \<in> set (ids (reduceSpacerParagraphs
                                           (getPossibleSpacerParagraphs (Elem i tg f cs)) (Elem i tg f cs))))
           run = oddElems run
       \<and> length (filter (\<lambda>p. nid p \<in> set (ids (reduceSpacerParagraphs
                                           (getPossibleSpacerParagraphs (Elem i tg f cs)) (Elem i tg f cs))))
           run) = length run div 2"
proof -
  let ?t = "Elem i tg f cs"
  let ?ps = "getPossibleSpacerParagraphs ?t"
  let ?adj = "nextElementSibling ?t"
  let ?res = "reduceSpacerParagraphs ?ps ?t"
  let ?X = "nid ` set ?ps"
  have d: "distinct (ids ?t)" using wf by (simp add: wellFormed_def)
  have inv: "reduceInv ?X ?t (map nid ?ps)" using reduceInv_spacers[OF wf] .
  have res: "?res = removePairwise (map nid ?ps) ?t" using reduce_is_pairwise[OF d] .
  have dn: "distinct (map nid pre @ map nid run @ map nid post)"
    using distinct_spacers[OF d] unfolding ps by simp
  have ch: "\<forall>k. k + 1 < length (map nid run) \<longrightarrow> ?adj (map nid run ! k) = Some (map nid run ! (k + 1))"
    using chain by simp
  have l: "map nid pre = [] \<or> map nid run = [] \<or> ?adj (last (map nid pre)) \<noteq> Some (hd (map nid run))"
    using left by (cases "pre = []"; cases "run = []") (simp_all add: last_map hd_map)
  have r: "map nid run = [] \<or> map nid post = [] \<or> ?adj (last (map nid run)) \<noteq> Some (hd (map nid post))"
    using right by (cases "post = []"; cases "run = []") (simp_all add: last_map hd_map)
  have sv: "filter (\<lambda>x. x \<in> set (survivors ?adj (map nid ?ps))) (map nid run) = oddElems (map nid run)"
    using survivors_run[OF dn ch l r] unfolding ps by simp
  have mem: "nid p \<in> set (ids ?res) \<longleftrightarrow> nid p \<in> set (survivors ?adj (map nid ?ps))"
    if "p \<in> set run" for p
  proof -
    have p: "p \<in> set ?ps" using that unfolding ps by simp
    then have "nid p \<in> set (ids ?t)"
      using inv unfolding reduceInv_def list_all_iff by auto
    then show ?thesis
      unfolding res using removePairwise_survivors[OF inv, of "nid p"] p by auto
  qed
  have "filter (\<lambda>p. nid p \<in> set (ids ?res)) run
          = filter (\<lambda>p. nid p \<in> set (survivors ?adj (map nid ?ps))) run"
    using mem by (intro filter_cong) auto
  then have "map nid (filter (\<lambda>p. nid p \<in> set (ids ?res)) run) = map nid (oddElems run)"
    using sv by (simp add: filter_map comp_def oddElems_map)
  moreover have "inj_on nid (set (filter (\<lambda>p. nid p \<in> set (ids ?res)) run) \<union> set (oddElems run))"
  proof -
    have "inj_on nid (set run)" using dn by (simp add: distinct_map)
    then show ?thesis
      by (rule inj_on_subset) (use oddElems_subset[of run] in auto)
  qed
  ultimately have "filter (\<lambda>p. nid p \<in> set (ids ?res)) run = oddElems run"
    by (simp add: inj_on_map_eq_map)
  then show ?thesis by (simp add: length_oddElems)
qed

theorem reduceSpacerParagraphs_halves_runs_witness:
  "wellFormed (Elem 0 ''DIV'' None
      [spacer 1 2, Elem 3 ''P'' None [Text ''a''], spacer 5 6, spacer 7 8, spacer 9 10])
   \<and> getPossibleSpacerParagraphs (Elem 0 ''DIV'' None
        [spacer 1 2, Elem 3 ''P'' None [Text ''a''], spacer 5 6, spacer 7 8, spacer 9 10])
      = [spacer 1 2] @ [spacer 5 6, spacer 7 8, spacer 9 10] @ []
   \<and> filter (\<lambda>p. nid p \<in> set (ids (reduceSpacerParagraphs
         (getPossibleSpacerParagraphs (Elem 0 ''DIV'' None
            [spacer 1 2, Elem 3 ''P'' None [Text ''a''], spacer 5 6, spacer 7 8, spacer 9 10]))
         (Elem 0 ''DIV'' None
            [spacer 1 2, Elem 3 ''P'' None [Text ''a''], spacer 5 6, spacer 7 8, spacer 9 10]))))
       [spacer 5 6, spacer 7 8, spacer 9 10] = [spacer 7 8]
   \<and> length (filter (\<lambda>p. nid p \<in> set (ids (reduceSpacerParagraphs
         (getPossibleSpacerParagraphs (Elem 0 ''DIV'' None
            [spacer 1 2, Elem 3 ''P'' None [Text ''a''], spacer 5 6, spacer 7 8, spacer 9 10]))
         (Elem 0 ''DIV'' None
            [spacer 1 2, Elem 3 ''P'' None [Text ''a''], spacer 5 6, spacer 7 8, spacer 9 10]))))
       [spacer 5 6, spacer 7 8, spacer 9 10]) = 3 div 2"
proof -
  let ?t = "Elem 0 ''DIV'' None
      [spacer 1 2, Elem 3 ''P'' None [Text ''a''], spacer 5 6, spacer 7 8, spacer 9 10]"
  let ?run = "[spacer 5 6, spacer 7 8, spacer 9 10]"
  have wf: "wellFormed ?t" by (simp add: wellFormed_def spacer_def)
  have ps: "getPossibleSpacerParagraphs ?t = [spacer 1 2] @ ?run @ []" by code_simp
  have a1: "nextElementSibling ?t 5 = Some 7" by code_simp
  have a2: "nextElementSibling ?t 7 = Some 9" by code_simp
  have a3: "nextElementSibling ?t 1 \<noteq> Some 5" by code_simp
  have chain: "\<forall>k. k + 1 < length ?run \<longrightarrow>
                  nextElementSibling ?t (nid (?run ! k)) = Some (nid (?run ! (k + 1)))"
  proof (intro allI impI)
    fix k assume "k + 1 < length ?run"
    then have "k = 0 \<or> k = 1" by auto
    then show "nextElementSibling ?t (nid (?run ! k)) = Some (nid (?run ! (k + 1)))"
      using a1 a2 by (auto simp: spacer_def)
  qed
  have left: "[spacer 1 2] \<noteq> [] \<longrightarrow>
                 nextElementSibling ?t (nid (last [spacer 1 2])) \<noteq> Some (nid (hd ?run))"
    using a3 by (simp add: spacer_def)
  have right: "([] :: node list) \<noteq> [] \<longrightarrow>
                  nextElementSibling ?t (nid (last ?run)) \<noteq> Some (nid (hd []))"
    by simp
  have "oddElems ?run = [spacer 7 8]" by simp
  then show ?thesis
    using wf ps reduceSpacerParagraphs_halves_runs[OF wf ps chain left right]
    by simp
qed

section \<open>Claims about the break normalisation\<close>

text \<open>
  C6. A line-break marker \<open>n\<close> nested in a chain \<open>ws\<close> of recognised inline wrappers
  (\<^verbatim>\<open>B\<close>, \<^verbatim>\<open>DEL\<close>, \<^verbatim>\<open>EM\<close>, \<^verbatim>\<open>I\<close>, \<^verbatim>\<open>STRONG\<close>, \<^verbatim>\<open>SUB\<close>, \<^verbatim>\<open>SUP\<close>, \<^verbatim>\<open>SPAN\<close>, \<^verbatim>\<open>U\<close>), of
  any depth, each wrapper holding nothing but the next one and the innermost nothing but
  the marker: the loop of \<^verbatim>\<open>unwrapBr\<close> returns, and on return the marker stands where the
  outermost wrapper stood, as a child of the nearest ancestor \<open>a\<close> that is no recognised
  wrapper (the root \<^verbatim>\<open>div\<close> when the context \<open>C\<close> is empty); every wrapper of the chain
  is gone and the rest of the tree is as it was.
\<close>

theorem unwrapBr_nested_marker:
  assumes "distinct (ids (plug C (Elem a ta fa (ls @ wrapIn ws n # rs))))"
    and "idOf n = Some br"
    and "list_all (\<lambda>(w, tg, f). tg \<in> set inlineWrappers) ws"
    and "ta \<notin> set inlineWrappers"
  shows "unwrapBr br (plug C (Elem a ta fa (ls @ wrapIn ws n # rs)))
           = Some (Inr (plug C (Elem a ta fa (ls @ n # rs))))"
  using assms by (rule unwrapBr_chain_aux)

theorem unwrapBr_nested_marker_witness:
  "distinct (ids (Elem 0 ''DIV'' None
       [Elem 1 ''P'' None [Text ''a'', Elem 2 ''B'' None [Elem 3 ''EM'' None [Elem 4 ''BR'' None []]]]]))
   \<and> unwrapBr 4 (Elem 0 ''DIV'' None
       [Elem 1 ''P'' None [Text ''a'', Elem 2 ''B'' None [Elem 3 ''EM'' None [Elem 4 ''BR'' None []]]]])
     = Some (Inr (Elem 0 ''DIV'' None [Elem 1 ''P'' None [Text ''a'', Elem 4 ''BR'' None []]]))"
proof -
  have d: "distinct (ids (plug [Frame 0 ''DIV'' None [] []]
      (Elem 1 ''P'' None ([Text ''a''] @ wrapIn [(2, ''B'', None), (3, ''EM'', None)] (Elem 4 ''BR'' None []) # []))))"
    by simp
  show ?thesis
    using d unwrapBr_nested_marker[OF d, of 4]
    by (simp add: inlineWrappers_def)
qed

text \<open>
  C1 (as amended). A filler marker is never deleted, and it keeps its parent unless it is
  the only child of a recognised inline wrapper. In a tree as the parser builds it, for
  every \<^verbatim>\<open>br\<close> below the \<^verbatim>\<open>div\<close> whose \<^verbatim>\<open>dataset.ckeFiller\<close> is \<^verbatim>\<open>"true"\<close>: the
  normalisation returns normally and the marker is still below the \<^verbatim>\<open>div\<close>; the elements
  that are left stand in the document order they had (nothing is reordered); and the
  parent of the marker is the element it was, whenever that parent is no recognised
  inline wrapper, or has another child node besides the marker and \<^verbatim>\<open>isAtNodeEnd\<close> never
  holds of an element that has a next element sibling. What is left out is the filler
  that is the only child of a recognised inline wrapper, and the index of the filler
  among its siblings, which drops when siblings before it are removed.
\<close>

theorem filler_marker_survives:
  assumes "wellFormed (createDiv cs)" and "b \<in> set (descendants (createDiv cs))"
    and "tagName b = ''BR''" and "ckeFiller b = Some ''true''"
  shows "\<exists>t'. normalizeTree atEnd (createDiv cs) = Some (Inr t')
           \<and> b \<in> set (descendants t')
           \<and> subseq (ids t') (ids (createDiv cs))
           \<and> (\<forall>parent. parentElement (createDiv cs) (nid b) = Some parent
                  \<and> (tagName parent \<notin> set inlineWrappers
                     \<or> (length (childNodes parent) \<noteq> 1
                        \<and> (\<forall>t x c. c \<in> set (pathTo t x) \<and> nid c \<noteq> x \<and> atEnd t x (nid c)
                               \<longrightarrow> nextElementSibling t x = None)))
                \<longrightarrow> map_option nid (parentElement t' (nid b)) = Some (nid parent))"
proof -
  let ?t = "Elem 0 ''DIV'' None cs"
  let ?brs = "querySelectorAll ''BR'' ?t"
  let ?S = "\<forall>t x c. c \<in> set (pathTo t x) \<and> nid c \<noteq> x \<and> atEnd t x (nid c)
                \<longrightarrow> nextElementSibling t x = None"
  have wf: "wellFormed ?t" using assms(1) by (simp add: createDiv_def)
  have dv: "''DIV'' \<notin> set inlineWrappers" by (simp add: inlineWrappers_def)
  have d: "distinct (ids ?t)" and bl: "brLeaf ?t" using wf by (auto simp: wellFormed_def)
  have bd: "b \<in> set (descendants ?t)" using assms(2) by (simp add: createDiv_def)
  have bs: "b \<in> set (subElems ?t)" and sb: "sigOf b \<in> set (sigs ?t)"
    using descendants_facts[OF d bd] by auto
  have sbe: "sigOf b = (nid b, ''BR'', Some ''true'')"
    using assms(3,4) by (simp add: sigOf_def)
  have fb: "isFillerSig (sigOf b)"
    using assms(3,4) by (simp add: isFillerSig_def sigOf_def)
  have inv: "brInv ?t ?brs" using brInv_querySelectorAll[OF wf dv] .
  have bq: "b \<in> set ?brs" using bd assms(3) by (simp add: querySelectorAll_def)
  obtain t1 where n1: "normalizeBr atEnd ?t = Some (Inr t1)" and wf1: "wellFormed t1"
    and r1: "nid t1 = 0" "tagName t1 = ''DIV''"
    and keep: "\<forall>s\<in>set (sigs ?t). fst (snd s) \<in> set inlineWrappers
                  \<or> (fst (snd s) = ''BR'' \<and> snd (snd s) \<noteq> Some ''true'')
                  \<or> s \<in> set (sigs t1)"
    using normalizeBr_inv[OF wf dv, of atEnd] by blast
  have sq1: "subseq (ids t1) (ids ?t)"
    using normalizeBr_each_subseq[OF inv, of atEnd] n1 by (auto simp: normalizeBr_def)
  have s1: "sigOf b \<in> set (sigs t1)"
    using keep sb assms(3,4) by (auto simp: sigOf_def inlineWrappers_def)
  then obtain f1 cs1 where t1: "t1 = Elem 0 ''DIV'' f1 cs1"
    using r1 by (cases t1) auto
  let ?ps = "getPossibleSpacerParagraphs t1"
  define t' where "t' = reduceSpacerParagraphs ?ps t1"
  have d1: "distinct (ids t1)" and bl1: "brLeaf t1" using wf1 by (auto simp: wellFormed_def)
  have t'eq: "t' = removePairwise (map nid ?ps) t1"
    unfolding t'_def t1 using reduce_is_pairwise d1 unfolding t1 by blast
  have g: "guarded (nid ` set ?ps) t1"
    using guarded_spacers wf1 unfolding t1 by blast
  have s': "sigOf b \<in> set (sigs t')"
    unfolding t'eq using removePairwise_keeps[OF _ g fb s1, of "map nid ?ps"] by simp
  have x': "nid b \<in> set (ids t')"
    using s' unfolding ids_sigs sigOf_def by force
  have bl': "brLeaf t'" unfolding t'eq using removePairwise_brLeaf[OF bl1] .
  have d': "distinct (ids t')"
    using removePairwise_wellFormed[OF wf1, of "map nid ?ps"] unfolding t'eq wellFormed_def by simp
  obtain m where m: "m \<in> set (subElems t')" "sigOf m = sigOf b"
    using sigs_member[OF s'] by blast
  have "brLeaf b" "isElement b" using brLeaf_sub[OF bl bs] subElems_isElement[OF bs] by auto
  then obtain x where b: "b = Elem x ''BR'' (Some ''true'') []"
    using assms(3,4) by (cases b) auto
  have "brLeaf m" "isElement m" using brLeaf_sub[OF bl' m(1)] subElems_isElement[OF m(1)] by auto
  then have mb: "m = b"
    using m(2) unfolding b by (cases m) (auto simp: sigOf_def)
  obtain cs' where t': "t' = Elem 0 ''DIV'' f1 cs'"
    unfolding t'eq t1 using removePairwise_root by blast
  have desc: "b \<in> set (descendants t')"
    using m(1) unfolding mb t' b by auto
  have run: "normalizeTree atEnd (createDiv cs) = Some (Inr t')"
    using n1 by (simp add: normalizeTree_def createDiv_def t'_def)
  have sq: "subseq (ids t') (ids (createDiv cs))"
    using removePairwise_subseq[OF d1, of "map nid ?ps"] sq1 unfolding t'eq createDiv_def
    by (meson subseq_order.trans)
  have par: "map_option nid (parentElement t' (nid b)) = Some (nid parent)"
    if pe: "parentElement (createDiv cs) (nid b) = Some parent"
      and c: "tagName parent \<notin> set inlineWrappers \<or> (length (childNodes parent) \<noteq> 1 \<and> ?S)"
    for parent
  proof -
    have lk: "(nid parent, tagName parent, length (childNodes parent), nid b) \<in> set (links ?t)"
      using parent_links[OF d pe[unfolded createDiv_def]] .
    have fx: "(nid b, ''BR'', Some ''true'') \<in> set (sigs ?t)" using sb sbe by simp
    obtain t1' k1 where "normalizeBr_each atEnd ?brs ?t = Some (Inr t1')"
      and lk1: "(nid parent, tagName parent, k1, nid b) \<in> set (links t1')"
      using normalizeBr_each_parent[OF inv querySelectorAll_subseq lk fx, of ?S atEnd] c by blast
    then have "t1' = t1" using n1 by (simp add: normalizeBr_def)
    then obtain k' where "(nid parent, tagName parent, k', nid b) \<in> set (links t')"
      using removePairwise_links[OF d1 _ x'[unfolded t'eq]] lk1 unfolding t'eq by blast
    then show ?thesis
      using links_parent[OF d'] by fastforce
  qed
  show ?thesis
    using run desc sq par by blast
qed

theorem filler_marker_survives_witness:
  "wellFormed (createDiv
       [Elem 1 ''P'' None [Text ''x'', Elem 2 ''B'' None [Text ''a'', Elem 3 ''BR'' (Some ''true'') [], Elem 4 ''BR'' None []]],
        Elem 5 ''P'' None [Elem 6 ''BR'' None []],
        Elem 7 ''P'' None [Elem 8 ''BR'' (Some ''true'') []]])
   \<and> parentElement (createDiv
       [Elem 1 ''P'' None [Text ''x'', Elem 2 ''B'' None [Text ''a'', Elem 3 ''BR'' (Some ''true'') [], Elem 4 ''BR'' None []]],
        Elem 5 ''P'' None [Elem 6 ''BR'' None []],
        Elem 7 ''P'' None [Elem 8 ''BR'' (Some ''true'') []]]) 3
        = Some (Elem 2 ''B'' None [Text ''a'', Elem 3 ''BR'' (Some ''true'') [], Elem 4 ''BR'' None []])
   \<and> parentElement (createDiv
       [Elem 1 ''P'' None [Text ''x'', Elem 2 ''B'' None [Text ''a'', Elem 3 ''BR'' (Some ''true'') [], Elem 4 ''BR'' None []]],
        Elem 5 ''P'' None [Elem 6 ''BR'' None []],
        Elem 7 ''P'' None [Elem 8 ''BR'' (Some ''true'') []]]) 8 = Some (Elem 7 ''P'' None [Elem 8 ''BR'' (Some ''true'') []])
   \<and> ''P'' \<notin> set inlineWrappers
   \<and> (\<exists>t'. normalizeTree isAtNodeEnd (createDiv
       [Elem 1 ''P'' None [Text ''x'', Elem 2 ''B'' None [Text ''a'', Elem 3 ''BR'' (Some ''true'') [], Elem 4 ''BR'' None []]],
        Elem 5 ''P'' None [Elem 6 ''BR'' None []],
        Elem 7 ''P'' None [Elem 8 ''BR'' (Some ''true'') []]]) = Some (Inr t')
          \<and> Elem 3 ''BR'' (Some ''true'') [] \<in> set (descendants t')
          \<and> Elem 8 ''BR'' (Some ''true'') [] \<in> set (descendants t')
          \<and> subseq (ids t') (ids (createDiv
       [Elem 1 ''P'' None [Text ''x'', Elem 2 ''B'' None [Text ''a'', Elem 3 ''BR'' (Some ''true'') [], Elem 4 ''BR'' None []]],
        Elem 5 ''P'' None [Elem 6 ''BR'' None []],
        Elem 7 ''P'' None [Elem 8 ''BR'' (Some ''true'') []]]))
          \<and> map_option nid (parentElement t' 3) = Some 2
          \<and> map_option nid (parentElement t' 8) = Some 7)"
proof -
  let ?cs = "[Elem 1 ''P'' None [Text ''x'', Elem 2 ''B'' None [Text ''a'', Elem 3 ''BR'' (Some ''true'') [], Elem 4 ''BR'' None []]],
        Elem 5 ''P'' None [Elem 6 ''BR'' None []],
        Elem 7 ''P'' None [Elem 8 ''BR'' (Some ''true'') []]]"
  let ?b3 = "Elem 3 ''BR'' (Some ''true'') []"
  let ?b8 = "Elem 8 ''BR'' (Some ''true'') []"
  have wf: "wellFormed (createDiv ?cs)"
    by (simp add: wellFormed_def createDiv_def)
  have b3: "?b3 \<in> set (descendants (createDiv ?cs))" and b8: "?b8 \<in> set (descendants (createDiv ?cs))"
    by (simp_all add: createDiv_def)
  have p3: "parentElement (createDiv ?cs) (nid ?b3)
              = Some (Elem 2 ''B'' None [Text ''a'', Elem 3 ''BR'' (Some ''true'') [], Elem 4 ''BR'' None []])"
    by code_simp
  have p8: "parentElement (createDiv ?cs) (nid ?b8) = Some (Elem 7 ''P'' None [Elem 8 ''BR'' (Some ''true'') []])"
    by code_simp
  have nw: "''P'' \<notin> set inlineWrappers" by (simp add: inlineWrappers_def)
  have snd: "\<forall>t x c. c \<in> set (pathTo t x) \<and> nid c \<noteq> x \<and> isAtNodeEnd t x (nid c)
               \<longrightarrow> nextElementSibling t x = None"
    using isAtNodeEnd_sound by blast
  obtain t' where t': "normalizeTree isAtNodeEnd (createDiv ?cs) = Some (Inr t')"
    "?b3 \<in> set (descendants t')" "subseq (ids t') (ids (createDiv ?cs))"
    "map_option nid (parentElement t' (nid ?b3)) = Some 2"
    using filler_marker_survives[OF wf b3, of isAtNodeEnd] p3 snd by auto
  obtain t'' where t'': "normalizeTree isAtNodeEnd (createDiv ?cs) = Some (Inr t'')"
    "?b8 \<in> set (descendants t'')"
    "map_option nid (parentElement t'' (nid ?b8)) = Some 7"
    using filler_marker_survives[OF wf b8, of isAtNodeEnd] p8 nw by auto
  have "t'' = t'" using t'(1) t''(1) by simp
  then show ?thesis
    using wf p3 p8 nw t' t'' by auto
qed

text \<open>
  C1 as stated (every filler keeps its parent and its place among its siblings) fails.
  \<^verbatim>\<open>unwrapBr\<close> does not look at the filler flag: in
  \<^verbatim>\<open><p><b><br data-cke-filler="true"></b></p>\<close> the filler 3 is the only child of the
  wrapper 2; after the pass the wrapper is gone and the parent of the filler is the
  paragraph 1. And the reducer removes siblings: in
  \<^verbatim>\<open><p><br></p><br data-cke-filler="true">\<close> the filler 3 is the second child of the
  \<^verbatim>\<open>div\<close>, after the pass it is the first.
\<close>

theorem filler_marker_unwrapped:
  "normalizeTree isAtNodeEnd
       (createDiv [Elem 1 ''P'' None [Elem 2 ''B'' None [Elem 3 ''BR'' (Some ''true'') []]]])
     = Some (Inr (createDiv [Elem 1 ''P'' None [Elem 3 ''BR'' (Some ''true'') []]]))
   \<and> map_option nid (parentElement
        (createDiv [Elem 1 ''P'' None [Elem 2 ''B'' None [Elem 3 ''BR'' (Some ''true'') []]]]) 3) = Some 2
   \<and> map_option nid (parentElement
        (createDiv [Elem 1 ''P'' None [Elem 3 ''BR'' (Some ''true'') []]]) 3) = Some 1
   \<and> normalizeTree isAtNodeEnd (createDiv [spacer 1 2, Elem 3 ''BR'' (Some ''true'') []])
     = Some (Inr (createDiv [Elem 3 ''BR'' (Some ''true'') []]))
   \<and> previousSibling (createDiv [spacer 1 2, Elem 3 ''BR'' (Some ''true'') []]) 3 = Some (spacer 1 2)
   \<and> previousSibling (createDiv [Elem 3 ''BR'' (Some ''true'') []]) 3 = None"
  by code_simp

text \<open>
  C5. A marker that is no filler and stands at the end of its nearest enclosing paragraph
  or table cell \<open>c\<close> (\<open>atEnd\<close> is the \<^verbatim>\<open>Util.isAtNodeEnd\<close> of the call): when \<open>c\<close> is a paragraph
  with exactly one child node the marker stays; when \<open>c\<close> is a paragraph with two or more
  child nodes, or a table cell with any number of them, the marker is removed, that is, it
  is taken out of the children of its parent and nothing else changes. A marker with no
  enclosing paragraph or table cell, or one that is not at the end, stays. The cases are
  exhaustive: the container is a paragraph or a table cell, it is not the marker itself,
  and it has at least one child node.
\<close>

theorem removeTrailingBr_scope:
  assumes d: "distinct (ids t)" and b: "br \<in> set (subElems t)"
    and tg: "tagName br = ''BR''" and nf: "ckeFiller br \<noteq> Some ''true''"
  shows "(closest [''P'', ''TD''] t (nid br) = None \<longrightarrow> removeTrailingBr atEnd br t = t)
       \<and> (\<forall>c. closest [''P'', ''TD''] t (nid br) = Some c \<longrightarrow>
             (tagName c = ''P'' \<or> tagName c = ''TD'') \<and> nid c \<noteq> nid br \<and> 1 \<le> length (childNodes c)
           \<and> (\<not> atEnd t (nid br) (nid c) \<longrightarrow> removeTrailingBr atEnd br t = t)
           \<and> (atEnd t (nid br) (nid c) \<and> tagName c = ''P'' \<and> length (childNodes c) = 1 \<longrightarrow>
                 removeTrailingBr atEnd br t = t)
           \<and> (atEnd t (nid br) (nid c) \<and> (tagName c = ''TD'' \<or> 2 \<le> length (childNodes c)) \<longrightarrow>
                 nid br \<notin> set (ids (removeTrailingBr atEnd br t))
               \<and> (\<exists>C p tgp f ls rs. t = plug C (Elem p tgp f (ls @ br # rs))
                     \<and> removeTrailingBr atEnd br t = plug C (Elem p tgp f (ls @ rs)))))"
proof (intro conjI allI impI)
  assume "closest [''P'', ''TD''] t (nid br) = None"
  then show "removeTrailingBr atEnd br t = t"
    by (simp add: removeTrailingBr_def)
next
  fix c
  assume c: "closest [''P'', ''TD''] t (nid br) = Some c"
  obtain K where t: "t = plug K br" using subElems_decompose[OF b] by blast
  have e: "isElement br" using subElems_isElement[OF b] .
  note cf = closest_facts[OF d[unfolded t] e tg c[unfolded t]]
  show "tagName c = ''P'' \<or> tagName c = ''TD''" "nid c \<noteq> nid br" "1 \<le> length (childNodes c)"
    using cf by auto
  {
    assume "\<not> atEnd t (nid br) (nid c)"
    then show "removeTrailingBr atEnd br t = t"
      using c by (simp add: removeTrailingBr_def)
  }
  {
    assume "atEnd t (nid br) (nid c) \<and> tagName c = ''P'' \<and> length (childNodes c) = 1"
    then show "removeTrailingBr atEnd br t = t"
      using c by (simp add: removeTrailingBr_def)
  }
  assume a: "atEnd t (nid br) (nid c) \<and> (tagName c = ''TD'' \<or> 2 \<le> length (childNodes c))"
  then have r: "removeTrailingBr atEnd br t = remove (nid br) t"
    using c nf by (auto simp: removeTrailingBr_def)
  obtain G F where K: "K = G @ [F]"
    using cf(4) by (cases K rule: rev_cases) auto
  obtain p tgp f ls rs where F: "F = Frame p tgp f ls rs" by (cases F)
  have t': "t = plug G (Elem p tgp f (ls @ br # rs))"
    unfolding t K F by (simp add: plug_append)
  have rm: "remove (nid br) t = plug G (Elem p tgp f (ls @ rs))"
    unfolding t' using d[unfolded t'] isElement_idOf[OF e] by (intro remove_focus)
  have "nid br \<in> set (ids br)" using e by (cases br) auto
  then show "nid br \<notin> set (ids (removeTrailingBr atEnd br t))"
    unfolding r rm using d[unfolded t' distinct_ids_plug] by (auto simp: set_ids_plug)
  show "\<exists>C p tgp f ls rs. t = plug C (Elem p tgp f (ls @ br # rs))
          \<and> removeTrailingBr atEnd br t = plug C (Elem p tgp f (ls @ rs))"
    using t' r rm by metis
qed

theorem removeTrailingBr_scope_witness:
  "distinct (ids (createDiv [Elem 1 ''P'' None [Text ''a'', Elem 2 ''BR'' None []]]))
   \<and> Elem 2 ''BR'' None [] \<in> set (subElems (createDiv [Elem 1 ''P'' None [Text ''a'', Elem 2 ''BR'' None []]]))
   \<and> closest [''P'', ''TD''] (createDiv [Elem 1 ''P'' None [Text ''a'', Elem 2 ''BR'' None []]]) 2
        = Some (Elem 1 ''P'' None [Text ''a'', Elem 2 ''BR'' None []])
   \<and> isAtNodeEnd (createDiv [Elem 1 ''P'' None [Text ''a'', Elem 2 ''BR'' None []]]) 2 1
   \<and> 2 \<notin> set (ids (removeTrailingBr isAtNodeEnd (Elem 2 ''BR'' None [])
                      (createDiv [Elem 1 ''P'' None [Text ''a'', Elem 2 ''BR'' None []]])))"
proof -
  let ?t = "createDiv [Elem 1 ''P'' None [Text ''a'', Elem 2 ''BR'' None []]]"
  let ?br = "Elem 2 ''BR'' None []"
  have d: "distinct (ids ?t)" by (simp add: createDiv_def)
  have b: "?br \<in> set (subElems ?t)" by (simp add: createDiv_def)
  have tg: "tagName ?br = ''BR''" by simp
  have nf: "ckeFiller ?br \<noteq> Some ''true''" by simp
  have c: "closest [''P'', ''TD''] ?t (nid ?br) = Some (Elem 1 ''P'' None [Text ''a'', Elem 2 ''BR'' None []])"
    by code_simp
  have a: "isAtNodeEnd ?t (nid ?br) (nid (Elem 1 ''P'' None [Text ''a'', Elem 2 ''BR'' None []]))"
    by code_simp
  have "nid ?br \<notin> set (ids (removeTrailingBr isAtNodeEnd ?br ?t))"
    using removeTrailingBr_scope[OF d b tg nf, of isAtNodeEnd, THEN conjunct2, rule_format, OF c,
        THEN conjunct2, THEN conjunct2, THEN conjunct2, THEN conjunct2, THEN conjunct2, rule_format,
        THEN conjunct1] a
    by simp
  then show ?thesis using d b c a by simp
qed

section \<open>Claims about the scan for spacer paragraphs\<close>

text \<open>
  C8 (as amended). \<^verbatim>\<open>getPossibleSpacerParagraphs\<close> returns paragraphs only, never table
  cells, in document order: every element it returns is a \<^verbatim>\<open>p\<close> below the \<^verbatim>\<open>div\<close> with
  exactly one element child, that child a \<^verbatim>\<open>br\<close> that is no filler; every \<^verbatim>\<open>p\<close> below the
  \<^verbatim>\<open>div\<close> whose only child node is a \<^verbatim>\<open>br\<close> that is no filler is returned; and the list
  returned is a subsequence of the descendants in document order. The scan is a function
  of the tree and returns the list only: the tree is not changed.
\<close>

theorem getPossibleSpacerParagraphs_scan:
  "(\<forall>p\<in>set (getPossibleSpacerParagraphs t).
       p \<in> set (descendants t) \<and> tagName p = ''P''
       \<and> (\<exists>child. children p = [child] \<and> tagName child = ''BR'' \<and> ckeFiller child \<noteq> Some ''true''))
   \<and> (\<forall>p\<in>set (descendants t).
         tagName p = ''P''
         \<and> (\<exists>child. kids p = [child] \<and> isElement child \<and> tagName child = ''BR''
                \<and> ckeFiller child \<noteq> Some ''true'')
         \<longrightarrow> p \<in> set (getPossibleSpacerParagraphs t))
   \<and> subseq (getPossibleSpacerParagraphs t) (descendants t)"
proof (intro conjI ballI impI)
  fix p
  assume p: "p \<in> set (getPossibleSpacerParagraphs t)"
  note pf = getPossibleSpacerParagraphs_facts[OF p]
  show "p \<in> set (descendants t)" "tagName p = ''P''" using pf by auto
  show "\<exists>child. children p = [child] \<and> tagName child = ''BR'' \<and> ckeFiller child \<noteq> Some ''true''"
    using pf(3) by (cases "children p") (auto simp: isSpacerCandidate_def childElementCount_def)
next
  fix p
  assume "p \<in> set (descendants t)"
    and "tagName p = ''P'' \<and> (\<exists>child. kids p = [child] \<and> isElement child \<and> tagName child = ''BR''
                \<and> ckeFiller child \<noteq> Some ''true'')"
  then show "p \<in> set (getPossibleSpacerParagraphs t)"
    by (auto simp: getPossibleSpacerParagraphs_def querySelectorAll_def isSpacerCandidate_def
        childElementCount_def children_def)
next
  show "subseq (getPossibleSpacerParagraphs t) (descendants t)"
    unfolding getPossibleSpacerParagraphs_def querySelectorAll_def
    by (simp add: subseq_filter_left)
qed

theorem getPossibleSpacerParagraphs_scan_witness:
  "spacer 1 2 \<in> set (descendants (createDiv [spacer 1 2, Elem 3 ''P'' None [Text ''a'']]))
   \<and> spacer 1 2 \<in> set (getPossibleSpacerParagraphs (createDiv [spacer 1 2, Elem 3 ''P'' None [Text ''a'']]))"
proof -
  let ?t = "createDiv [spacer 1 2, Elem 3 ''P'' None [Text ''a'']]"
  have d: "spacer 1 2 \<in> set (descendants ?t)"
    by (simp add: createDiv_def descendants_def spacer_def)
  have q: "tagName (spacer 1 2) = ''P''
         \<and> (\<exists>child. kids (spacer 1 2) = [child] \<and> isElement child \<and> tagName child = ''BR''
                \<and> ckeFiller child \<noteq> Some ''true'')"
    by (simp add: spacer_def)
  show ?thesis
    using d getPossibleSpacerParagraphs_scan[of ?t, THEN conjunct2, THEN conjunct1, rule_format, OF d q]
    by simp
qed

text \<open>
  C8 as stated fails. A table cell whose only child is a marker that is no filler is a
  spacer paragraph in the words of the specification, and the scan, which selects \<^verbatim>\<open>p\<close>
  only, does not return it. A paragraph holding a marker and a text is returned, since
  the scan counts element children only, though the marker is not its only child.
\<close>

theorem getPossibleSpacerParagraphs_not_spec:
  "getPossibleSpacerParagraphs
     (createDiv [Elem 1 ''TABLE'' None [Elem 2 ''TBODY'' None [Elem 3 ''TR'' None
        [Elem 4 ''TD'' None [Elem 5 ''BR'' None []]]]]]) = []
   \<and> filter isSpacerParagraph_spec
       (descendants (createDiv [Elem 1 ''TABLE'' None [Elem 2 ''TBODY'' None [Elem 3 ''TR'' None
        [Elem 4 ''TD'' None [Elem 5 ''BR'' None []]]]]]))
     = [Elem 4 ''TD'' None [Elem 5 ''BR'' None []]]
   \<and> getPossibleSpacerParagraphs (createDiv [Elem 1 ''P'' None [Elem 2 ''BR'' None [], Text ''a'']])
     = [Elem 1 ''P'' None [Elem 2 ''BR'' None [], Text ''a'']]
   \<and> filter isSpacerParagraph_spec
       (descendants (createDiv [Elem 1 ''P'' None [Elem 2 ''BR'' None [], Text ''a'']])) = []"
  by code_simp

section \<open>Claims about the entry point\<close>

text \<open>
  C7. \<^verbatim>\<open>normalizeLegacyMessage\<close> throws if and only if its argument is no textarea. With a
  parser that builds trees (distinct elements, \<^verbatim>\<open>br\<close> without children) the call on a
  textarea returns normally: no loop runs forever and no \<^verbatim>\<open>TypeError\<close> comes from a
  \<^verbatim>\<open>null\<close> parent. On any other element it throws the \<^verbatim>\<open>TypeError\<close> whatever the parser
  and the serialiser are: the check comes before both, and the thrown result carries no
  changed element.
\<close>

theorem normalizeLegacyMessage_throws_iff:
  fixes element :: "'a element"
  assumes "\<And>ta. element = HTMLTextAreaElement ta \<Longrightarrow> wellFormed (createDiv (parse (value ta)))"
  shows "(\<exists>r. normalizeLegacyMessage parse serialize atEnd element = Some r)
       \<and> ((\<exists>e. normalizeLegacyMessage parse serialize atEnd element = Some (Inl e))
            \<longleftrightarrow> (\<exists>k. element = OtherElement k))
       \<and> (\<forall>k p s. normalizeLegacyMessage p s atEnd (OtherElement k :: 'a element) = Some (Inl TypeError))"
proof (cases element)
  case (OtherElement k)
  then show ?thesis by (simp add: normalizeLegacyMessage_def)
next
  case (HTMLTextAreaElement ta)
  have "wellFormed (Elem 0 ''DIV'' None (parse (value ta)))"
    using assms[OF HTMLTextAreaElement] by (simp add: createDiv_def)
  moreover have "''DIV'' \<notin> set inlineWrappers" by (simp add: inlineWrappers_def)
  ultimately obtain t' where "normalizeTree atEnd (createDiv (parse (value ta))) = Some (Inr t')"
    using normalizeTree_total[of 0 "''DIV''" None "parse (value ta)" atEnd]
    unfolding createDiv_def by blast
  then show ?thesis
    using HTMLTextAreaElement by (simp add: normalizeLegacyMessage_def)
qed

theorem normalizeLegacyMessage_throws_iff_witness:
  "wellFormed (createDiv (exampleParse (value \<lparr>value = ''<p><br></p><p><br></p>''\<rparr>)))
   \<and> (\<exists>r. normalizeLegacyMessage exampleParse innerHTML isAtNodeEnd
             (HTMLTextAreaElement \<lparr>value = ''<p><br></p><p><br></p>''\<rparr>) = Some r)
   \<and> \<not> (\<exists>e. normalizeLegacyMessage exampleParse innerHTML isAtNodeEnd
             (HTMLTextAreaElement \<lparr>value = ''<p><br></p><p><br></p>''\<rparr>) = Some (Inl e))
   \<and> normalizeLegacyMessage exampleParse innerHTML isAtNodeEnd (OtherElement ''INPUT'' :: unit element)
        = Some (Inl TypeError)"
proof -
  have wf: "wellFormed (createDiv (exampleParse (value \<lparr>value = ''<p><br></p><p><br></p>''\<rparr>)))"
    by (simp add: wellFormed_def createDiv_def exampleParse_def spacer_def)
  have h: "\<And>ta. HTMLTextAreaElement \<lparr>value = ''<p><br></p><p><br></p>''\<rparr> = HTMLTextAreaElement ta
             \<Longrightarrow> wellFormed (createDiv (exampleParse (value ta)))"
    using wf by auto
  show ?thesis
    using wf normalizeLegacyMessage_throws_iff[where parse = exampleParse and serialize = innerHTML
        and atEnd = isAtNodeEnd and element = "HTMLTextAreaElement \<lparr>value = ''<p><br></p><p><br></p>''\<rparr>", OF h]
    by simp
qed

text \<open>
  C9. Read over the whole object graph (the tree of the document beside the new \<^verbatim>\<open>div\<close>,
  every DOM call acting on the element it names wherever that element is), a successful
  call of \<^verbatim>\<open>normalizeLegacyMessage\<close> on a textarea returns no value (the unit value) and
  changes nothing but the \<^verbatim>\<open>value\<close> of that textarea, which becomes the serialised
  children of the normalised \<^verbatim>\<open>div\<close>: the tree of the document is the tree it was, the
  \<^verbatim>\<open>div\<close> is not in it, everything else the textarea holds is unchanged, and so is every
  other textarea and the rest of the state. The value written is the one the functions
  on the working tree alone compute. The elements of the \<^verbatim>\<open>div\<close> are new objects (none is
  an element of the document), and the parser builds trees.
\<close>

theorem normalizeLegacyMessage_frame:
  assumes "textareas w element = Some ta"
    and "wellFormed (createDiv (parse (value ta)))"
    and "set (ids (createDiv (parse (value ta)))) \<inter> set (ids (document w)) = {}"
  shows "\<exists>t w'. normalizeTree atEnd (createDiv (parse (value ta))) = Some (Inr t)
           \<and> normalizeLegacyMessageIn parse serialize atEnd element w = Some (Inr ((), w'))
           \<and> document w' = document w
           \<and> nid t \<notin> set (ids (document w'))
           \<and> textareas w' element = Some (ta\<lparr>value := serialize (kids t)\<rparr>)
           \<and> (\<forall>e. e \<noteq> element \<longrightarrow> textareas w' e = textareas w e)
           \<and> world.more w' = world.more w
           \<and> normalizeLegacyMessage parse serialize atEnd (HTMLTextAreaElement ta)
               = Some (Inr (HTMLTextAreaElement (ta\<lparr>value := serialize (kids t)\<rparr>)))"
proof -
  obtain t where t: "normalizeTree atEnd (createDiv (parse (value ta))) = Some (Inr t)"
    and r: "normalizeLegacyMessageIn parse serialize atEnd element w
               = Some (Inr ((), w\<lparr>textareas := (textareas w)(element \<mapsto> ta\<lparr>value := serialize (kids t)\<rparr>)\<rparr>))"
    using normalizeLegacyMessageIn_tree[where parse = parse and atEnd = atEnd and serialize = serialize,
        OF assms] by blast
  obtain cs' where "normalizeTree atEnd (createDiv (parse (value ta))) = Some (Inr (createDiv cs'))"
    using normalizeTree_root[OF assms(2)] by blast
  then have "t = createDiv cs'" using t by simp
  then have "nid t = 0" by (simp add: createDiv_def)
  moreover have "0 \<notin> set (ids (document w))" using assms(3) by (auto simp: createDiv_def)
  moreover have "normalizeLegacyMessage parse serialize atEnd (HTMLTextAreaElement ta)
               = Some (Inr (HTMLTextAreaElement (ta\<lparr>value := serialize (kids t)\<rparr>)))"
    using t by (simp add: normalizeLegacyMessage_def)
  ultimately show ?thesis
    using t r by (intro exI[of _ t] exI[of _ "w\<lparr>textareas := (textareas w)(element \<mapsto> ta\<lparr>value := serialize (kids t)\<rparr>)\<rparr>"]) simp
qed

theorem normalizeLegacyMessage_frame_witness:
  "textareas
       \<lparr>document = Elem 10 ''BODY'' None [Elem 11 ''TEXTAREA'' None [], Elem 12 ''P'' None [Elem 13 ''BR'' None []]],
        textareas = (\<lambda>e. if e = 11 then Some \<lparr>value = ''<p><br></p><p><br></p>'', \<dots> = ''message''\<rparr> else None)\<rparr> 11
     = Some \<lparr>value = ''<p><br></p><p><br></p>'', \<dots> = ''message''\<rparr>
   \<and> wellFormed (createDiv (exampleParse ''<p><br></p><p><br></p>''))
   \<and> set (ids (createDiv (exampleParse ''<p><br></p><p><br></p>'')))
        \<inter> set (ids (Elem 10 ''BODY'' None [Elem 11 ''TEXTAREA'' None [], Elem 12 ''P'' None [Elem 13 ''BR'' None []]])) = {}
   \<and> (\<exists>w'. normalizeLegacyMessageIn exampleParse innerHTML isAtNodeEnd 11
              \<lparr>document = Elem 10 ''BODY'' None [Elem 11 ''TEXTAREA'' None [], Elem 12 ''P'' None [Elem 13 ''BR'' None []]],
               textareas = (\<lambda>e. if e = 11 then Some \<lparr>value = ''<p><br></p><p><br></p>'', \<dots> = ''message''\<rparr> else None)\<rparr>
            = Some (Inr ((), w'))
          \<and> document w' = Elem 10 ''BODY'' None [Elem 11 ''TEXTAREA'' None [], Elem 12 ''P'' None [Elem 13 ''BR'' None []]]
          \<and> textareas w' 11 = Some \<lparr>value = ''<p><br></p>'', \<dots> = ''message''\<rparr>
          \<and> textareas w' 12 = None)"
proof -
  let ?ta = "\<lparr>value = ''<p><br></p><p><br></p>'', \<dots> = ''message''\<rparr>"
  let ?pg = "Elem 10 ''BODY'' None [Elem 11 ''TEXTAREA'' None [], Elem 12 ''P'' None [Elem 13 ''BR'' None []]]"
  let ?w = "\<lparr>document = ?pg, textareas = (\<lambda>e. if e = 11 then Some ?ta else None)\<rparr>"
  have a: "textareas ?w 11 = Some ?ta" by simp
  have wf: "wellFormed (createDiv (exampleParse (value ?ta)))"
    by (simp add: wellFormed_def createDiv_def exampleParse_def spacer_def)
  have fr: "set (ids (createDiv (exampleParse (value ?ta)))) \<inter> set (ids (document ?w)) = {}"
    by (simp add: createDiv_def exampleParse_def spacer_def)
  have n: "normalizeTree isAtNodeEnd (createDiv (exampleParse (value ?ta))) = Some (Inr (createDiv [spacer 3 4]))"
    by code_simp
  have s: "innerHTML (kids (createDiv [spacer 3 4])) = ''<p><br></p>''" by code_simp
  obtain t w' where r: "normalizeTree isAtNodeEnd (createDiv (exampleParse (value ?ta))) = Some (Inr t)"
    "normalizeLegacyMessageIn exampleParse innerHTML isAtNodeEnd 11 ?w = Some (Inr ((), w'))"
    "document w' = document ?w"
    "textareas w' 11 = Some (?ta\<lparr>value := innerHTML (kids t)\<rparr>)"
    "\<forall>e. e \<noteq> 11 \<longrightarrow> textareas w' e = textareas ?w e"
    using normalizeLegacyMessage_frame[where parse = exampleParse and serialize = innerHTML
        and atEnd = isAtNodeEnd, OF a wf fr] by blast
  have "t = createDiv [spacer 3 4]" using r(1) n by simp
  then have "textareas w' 11 = Some \<lparr>value = ''<p><br></p>'', \<dots> = ''message''\<rparr>"
    using r(4) s by simp
  moreover have "textareas w' 12 = None" using r(5) by simp
  ultimately show ?thesis
    using a wf fr r(2,3) by auto
qed




end
